theory Spec2Isabelle
  imports Main
begin

section \<open>JSON values and the wire protocol\<close>

text \<open>
  Both programs (\<^verbatim>\<open>getVCOEnterpriseGetEdgeFlowVisibilityMetrics.py\<close>, here with the
  prefix \<open>flow_\<close>, and \<^verbatim>\<open>getVCOEnterpriseGetEnterpriseEvents.py\<close>, here with the prefix
  \<open>events_\<close>) exchange JSON with the server. A Python \<^verbatim>\<open>dict\<close> is an association list
  in insertion order; \<^verbatim>\<open>d.get(k)\<close> and \<^verbatim>\<open>d[k]\<close> read the binding of \<open>k\<close>.
  Numbers are integers: the programs send and inspect no fractional number.
\<close>

datatype json =
    JNull
  | JBool bool
  | JNum int
  | JStr string
  | JArr "json list"
  | JObj "(string \<times> json) list"

type_synonym pydict = "(string \<times> json) list"

type_synonym item = pydict

definition dict_get :: "pydict \<Rightarrow> string \<Rightarrow> json option" where
  "dict_get d k = map_of d k"

definition keys :: "pydict \<Rightarrow> string list" where
  "keys d = map fst d"

text \<open>Python's truth value of a JSON value, as \<^verbatim>\<open>not x\<close> tests it.\<close>

fun truthy :: "json \<Rightarrow> bool" where
  "truthy JNull = False"
| "truthy (JBool b) = b"
| "truthy (JNum n) = (n \<noteq> 0)"
| "truthy (JStr s) = (s \<noteq> [])"
| "truthy (JArr xs) = (xs \<noteq> [])"
| "truthy (JObj kvs) = (kvs \<noteq> [])"

text \<open>\<^verbatim>\<open>item.get("name") == "other"\<close>: the summary element the flow endpoint injects.\<close>

definition is_other :: "item \<Rightarrow> bool" where
  "is_other item = (dict_get item ''name'' = Some (JStr ''other''))"

text \<open>
  A response body that parses is an object of the protocol's shape
  \<^verbatim>\<open>{data: [item, ...], metaData: {more: ..., nextPageLink: ...}}\<close> in which every key the
  code tests for may be absent (\<open>None\<close>); the items are JSON objects, the value of
  \<^verbatim>\<open>more\<close> is any JSON value (the code only takes its truth value) and the continuation
  token is any JSON value (the code copies it). A parsed body that is empty or null takes
  the branch of a body without \<^verbatim>\<open>data\<close>, and is that body here.
\<close>

datatype meta = Meta (more: "json option") (nextPageLink: "json option")

datatype body = Body (data: "item list option") (metaData: "meta option")

text \<open>
  What one \<^verbatim>\<open>session.post\<close> does: it raises \<^verbatim>\<open>RequestException\<close>, or returns a response
  with a status code whose \<^verbatim>\<open>response.json()\<close> is a parsed body or raises (\<open>None\<close>).
\<close>

datatype outcome =
    RequestException
  | Response (status_code: int) (json_of: "body option")

text \<open>
  A queue message is what \<^verbatim>\<open>queue.put\<close> is given: a list of items, or Python's \<^verbatim>\<open>None\<close>,
  the end-of-stream sentinel.
\<close>

type_synonym msg = "item list option"

datatype py_error = KeyError | UnboundLocalError

datatype status =
    Finished
  | Raised py_error
  | AwaitingResponse

text \<open>
  The observable run of a fetch worker against a finite script of transport outcomes: the
  request bodies it posted, the messages it put on the queue, both in order, and how it
  ended: by \<^verbatim>\<open>break\<close> (\<open>Finished\<close>), by an exception nobody catches (\<open>Raised\<close>), or still
  waiting in \<^verbatim>\<open>session.post\<close> when the script has no further outcome
  (\<open>AwaitingResponse\<close>).
\<close>

datatype run = Run (requests: "pydict list") (queue: "msg list") (status: status)

text \<open>One pass of the loop body after the request is built: stop, or go round again.\<close>

datatype step =
    Stop "msg list"
  | Continue "msg list" bool body

text \<open>
  The test that ends pagination, the same in both programs:
  \<^verbatim>\<open>'metaData' not in data or 'more' not in data["metaData"] or not data["metaData"]["more"]\<close>.
\<close>

definition no_more :: "body \<Rightarrow> bool" where
  "no_more d =
     (case metaData d of
        None \<Rightarrow> True
      | Some m \<Rightarrow> (case more m of None \<Rightarrow> True | Some v \<Rightarrow> \<not> truthy v))"

text \<open>\<^verbatim>\<open>data["metaData"]["nextPageLink"]\<close>, a \<^verbatim>\<open>KeyError\<close> when either key is absent.\<close>

definition next_page_link :: "body option \<Rightarrow> py_error + json" where
  "next_page_link data_var =
     (case data_var of
        None \<Rightarrow> Inl UnboundLocalError
      | Some d \<Rightarrow>
          (case metaData d of
             None \<Rightarrow> Inl KeyError
           | Some m \<Rightarrow> (case nextPageLink m of None \<Rightarrow> Inl KeyError | Some t \<Rightarrow> Inr t)))"

section \<open>The flow-metrics fetch worker\<close>

text \<open>
  \<^verbatim>\<open>fetch_data_worker\<close> of the flow-metrics program, lines 119 to 135: the request body
  of the first page and of the later pages. \<open>data_var\<close> is the local variable \<^verbatim>\<open>data\<close> as
  the previous pass left it.
\<close>

definition flow_body ::
  "int \<Rightarrow> int \<Rightarrow> string \<Rightarrow> string \<Rightarrow> int \<Rightarrow> bool \<Rightarrow> body option \<Rightarrow> py_error + pydict" where
  "flow_body EdgeID enterpriseId start stop limit_flow first_page data_var =
     (if first_page then
        Inr [(''edgeId'', JNum EdgeID),
             (''enterpriseId'', JNum enterpriseId),
             (''interval'', JObj [(''start'', JStr start), (''end'', JStr stop)]),
             (''limit'', JNum limit_flow),
             (''_filterSpec'', JBool False)]
      else
        (case next_page_link data_var of
           Inl e \<Rightarrow> Inl e
         | Inr t \<Rightarrow>
             Inr [(''edgeId'', JNum EdgeID),
                  (''interval'', JObj [(''start'', JStr start), (''end'', JStr stop)]),
                  (''nextPageLink'', t)]))"

text \<open>
  Lines 144 to 193: the outcome of the post decides what is put on the queue and whether
  the loop goes on, with which \<^verbatim>\<open>first_page\<close> and \<^verbatim>\<open>data\<close>.
\<close>

definition flow_handle :: "bool \<Rightarrow> outcome \<Rightarrow> step" where
  "flow_handle first_page oc =
     (case oc of
        RequestException \<Rightarrow> Stop [None]
      | Response sc js \<Rightarrow>
          if sc \<noteq> 200 then Stop [None]
          else
            (case js of
               None \<Rightarrow> Stop [None]
             | Some d \<Rightarrow>
                 (case data d of
                    None \<Rightarrow> Stop [None]
                  | Some items \<Rightarrow>
                      if length items = 1 \<and> is_other (items ! 0) then
                        (if no_more d then Stop [None] else Continue [] first_page d)
                      else
                        (if no_more d then Stop [Some items, None]
                         else Continue [Some items] False d))))"

fun flow_loop ::
  "int \<Rightarrow> int \<Rightarrow> string \<Rightarrow> string \<Rightarrow> int \<Rightarrow> bool \<Rightarrow> body option \<Rightarrow> outcome list \<Rightarrow> run" where
  "flow_loop EdgeID enterpriseId start stop limit_flow first_page data_var [] =
     (case flow_body EdgeID enterpriseId start stop limit_flow first_page data_var of
        Inl e \<Rightarrow> Run [] [] (Raised e)
      | Inr b \<Rightarrow> Run [b] [] AwaitingResponse)"
| "flow_loop EdgeID enterpriseId start stop limit_flow first_page data_var (oc # rest) =
     (case flow_body EdgeID enterpriseId start stop limit_flow first_page data_var of
        Inl e \<Rightarrow> Run [] [] (Raised e)
      | Inr b \<Rightarrow>
          (case flow_handle first_page oc of
             Stop q \<Rightarrow> Run [b] q Finished
           | Continue q fp d \<Rightarrow>
               (case flow_loop EdgeID enterpriseId start stop limit_flow fp (Some d) rest of
                  Run bs q' st \<Rightarrow> Run (b # bs) (q @ q') st)))"

definition flow_fetch_data_worker ::
  "int \<Rightarrow> int \<Rightarrow> string \<Rightarrow> string \<Rightarrow> int \<Rightarrow> outcome list \<Rightarrow> run" where
  "flow_fetch_data_worker EdgeID enterpriseId start stop limit_flow script =
     flow_loop EdgeID enterpriseId start stop limit_flow True None script"

section \<open>The enterprise-events fetch worker\<close>

text \<open>\<^verbatim>\<open>fetch_data_worker\<close> of the events program, lines 111 to 136.\<close>

definition events_body ::
  "int \<Rightarrow> int \<Rightarrow> int \<Rightarrow> string \<Rightarrow> int \<Rightarrow> bool \<Rightarrow> body option \<Rightarrow> py_error + pydict" where
  "events_body enterpriseId start stop Vtype limit_event first_page data_var =
     (if first_page then
        Inr [(''filter'', JObj [(''limit'', JNum limit_event)]),
             (''interval'',
                JObj [(''start'', JNum start), (''end'', JNum stop), (''type'', JStr Vtype)]),
             (''enterpriseId'', JNum enterpriseId)]
      else
        (case next_page_link data_var of
           Inl e \<Rightarrow> Inl e
         | Inr t \<Rightarrow>
             Inr [(''nextPageLink'', t),
                  (''limit'', JNum limit_event),
                  (''interval'',
                     JObj [(''start'', JNum start), (''end'', JNum stop), (''type'', JStr Vtype)]),
                  (''enterpriseId'', JNum enterpriseId)]))"

text \<open>
  Lines 142 to 184. Every page that has \<^verbatim>\<open>data\<close> is put on the queue and clears
  \<^verbatim>\<open>first_page\<close>; the lengths 0 and 1 are only logged.
\<close>

definition events_handle :: "bool \<Rightarrow> outcome \<Rightarrow> step" where
  "events_handle first_page oc =
     (case oc of
        RequestException \<Rightarrow> Stop [None]
      | Response sc js \<Rightarrow>
          if sc \<noteq> 200 then Stop [None]
          else
            (case js of
               None \<Rightarrow> Stop [None]
             | Some d \<Rightarrow>
                 (case data d of
                    None \<Rightarrow> Stop [None]
                  | Some items \<Rightarrow>
                      if no_more d then Stop [Some items, None]
                      else Continue [Some items] False d)))"

fun events_loop ::
  "int \<Rightarrow> int \<Rightarrow> int \<Rightarrow> string \<Rightarrow> int \<Rightarrow> bool \<Rightarrow> body option \<Rightarrow> outcome list \<Rightarrow> run" where
  "events_loop enterpriseId start stop Vtype limit_event first_page data_var [] =
     (case events_body enterpriseId start stop Vtype limit_event first_page data_var of
        Inl e \<Rightarrow> Run [] [] (Raised e)
      | Inr b \<Rightarrow> Run [b] [] AwaitingResponse)"
| "events_loop enterpriseId start stop Vtype limit_event first_page data_var (oc # rest) =
     (case events_body enterpriseId start stop Vtype limit_event first_page data_var of
        Inl e \<Rightarrow> Run [] [] (Raised e)
      | Inr b \<Rightarrow>
          (case events_handle first_page oc of
             Stop q \<Rightarrow> Run [b] q Finished
           | Continue q fp d \<Rightarrow>
               (case events_loop enterpriseId start stop Vtype limit_event fp (Some d) rest of
                  Run bs q' st \<Rightarrow> Run (b # bs) (q @ q') st)))"

definition events_fetch_data_worker ::
  "int \<Rightarrow> int \<Rightarrow> int \<Rightarrow> string \<Rightarrow> int \<Rightarrow> outcome list \<Rightarrow> run" where
  "events_fetch_data_worker enterpriseId start stop Vtype limit_event script =
     events_loop enterpriseId start stop Vtype limit_event True None script"

section \<open>The write loops of main\<close>

text \<open>
  The output file is the list of writes made to it: \<open>Raw s\<close> is \<^verbatim>\<open>output_file.write(s)\<close>
  and \<open>Element item\<close> is \<^verbatim>\<open>write_json_with_indent(item, output_file, indent=4)\<close>.
\<close>

datatype file_write = Raw string | Element item

text \<open>
  The write loop against the messages the queue delivers, in order: it ends when it
  gets \<^verbatim>\<open>None\<close> (\<open>ended\<close>), and waits in \<^verbatim>\<open>queue.get\<close> for ever when the messages run
  out before that.
\<close>

datatype written = Written (output_file: "file_write list") (ended: bool)

text \<open>The \<^verbatim>\<open>for item in data_chunk\<close> loop of the flow-metrics program, lines 257 to 264.\<close>

fun flow_write_chunk :: "bool \<Rightarrow> file_write list \<Rightarrow> item list \<Rightarrow> bool \<times> file_write list" where
  "flow_write_chunk FirstElement out [] = (FirstElement, out)"
| "flow_write_chunk FirstElement out (item # data_chunk) =
     (if is_other item then flow_write_chunk FirstElement out data_chunk
      else if \<not> FirstElement then
        flow_write_chunk FirstElement (out @ [Raw '',\<newline>'', Element item]) data_chunk
      else flow_write_chunk False (out @ [Element item]) data_chunk)"

text \<open>The \<^verbatim>\<open>while True\<close> loop, lines 249 to 270.\<close>

fun flow_write_loop :: "bool \<Rightarrow> file_write list \<Rightarrow> msg list \<Rightarrow> written" where
  "flow_write_loop FirstElement out [] = Written out False"
| "flow_write_loop FirstElement out (None # msgs) = Written (out @ [Raw ''\<newline>]'']) True"
| "flow_write_loop FirstElement out (Some data_chunk # msgs) =
     (case flow_write_chunk FirstElement out data_chunk of
        (fe, out') \<Rightarrow> flow_write_loop fe out' msgs)"

definition flow_main_write :: "msg list \<Rightarrow> written" where
  "flow_main_write msgs = flow_write_loop True [Raw ''[\<newline>''] msgs"

text \<open>The events program, lines 251 to 256 and 243 to 262: no item is skipped.\<close>

fun events_write_chunk :: "bool \<Rightarrow> file_write list \<Rightarrow> item list \<Rightarrow> bool \<times> file_write list" where
  "events_write_chunk FirstElement out [] = (FirstElement, out)"
| "events_write_chunk FirstElement out (item # data_chunk) =
     (if \<not> FirstElement then
        events_write_chunk FirstElement (out @ [Raw '',\<newline>'', Element item]) data_chunk
      else events_write_chunk False (out @ [Element item]) data_chunk)"

fun events_write_loop :: "bool \<Rightarrow> file_write list \<Rightarrow> msg list \<Rightarrow> written" where
  "events_write_loop FirstElement out [] = Written out False"
| "events_write_loop FirstElement out (None # msgs) = Written (out @ [Raw ''\<newline>]'']) True"
| "events_write_loop FirstElement out (Some data_chunk # msgs) =
     (case events_write_chunk FirstElement out data_chunk of
        (fe, out') \<Rightarrow> events_write_loop fe out' msgs)"

definition events_main_write :: "msg list \<Rightarrow> written" where
  "events_main_write msgs = events_write_loop True [Raw ''[\<newline>''] msgs"

text \<open>
  The pipeline: the queue is first-in first-out with one producer and one consumer, so
  the write loop gets the messages of the fetch worker in the order they were put.
\<close>

definition flow_main :: "int \<Rightarrow> int \<Rightarrow> string \<Rightarrow> string \<Rightarrow> int \<Rightarrow> outcome list \<Rightarrow> written" where
  "flow_main EdgeID enterpriseId start stop limit_flow script =
     flow_main_write (queue (flow_fetch_data_worker EdgeID enterpriseId start stop limit_flow script))"

definition events_main :: "int \<Rightarrow> int \<Rightarrow> int \<Rightarrow> string \<Rightarrow> int \<Rightarrow> outcome list \<Rightarrow> written" where
  "events_main enterpriseId start stop Vtype limit_event script =
     events_main_write
       (queue (events_fetch_data_worker enterpriseId start stop Vtype limit_event script))"

text \<open>The items a file holds, in the order they were written.\<close>

fun elements :: "file_write list \<Rightarrow> item list" where
  "elements [] = []"
| "elements (Raw s # ws) = elements ws"
| "elements (Element item # ws) = item # elements ws"

text \<open>
  \<^verbatim>\<open>write_json_with_indent\<close>: every line of \<^verbatim>\<open>json.dumps(item, indent=indent)\<close> is
  prefixed with \<open>indent\<close> spaces and the lines are joined with a newline.
  \<open>dumps_lines item indent\<close> stands for the library's
  \<^verbatim>\<open>json.dumps(item, indent=indent).splitlines()\<close>.
\<close>

fun str_join :: "string \<Rightarrow> string list \<Rightarrow> string" where
  "str_join sep [] = []"
| "str_join sep [x] = x"
| "str_join sep (x # y # ys) = x @ sep @ str_join sep (y # ys)"

definition write_json_with_indent :: "(item \<Rightarrow> nat \<Rightarrow> string list) \<Rightarrow> item \<Rightarrow> nat \<Rightarrow> string" where
  "write_json_with_indent dumps_lines item indent =
     str_join ''\<newline>'' (map (\<lambda>line. replicate indent CHR '' '' @ line) (dumps_lines item indent))"

fun write_text :: "(item \<Rightarrow> nat \<Rightarrow> string list) \<Rightarrow> file_write \<Rightarrow> string" where
  "write_text dumps_lines (Raw s) = s"
| "write_text dumps_lines (Element item) = write_json_with_indent dumps_lines item 4"

definition file_text :: "(item \<Rightarrow> nat \<Rightarrow> string list) \<Rightarrow> file_write list \<Rightarrow> string" where
  "file_text dumps_lines ws = concat (map (write_text dumps_lines) ws)"

section \<open>Vocabulary of the properties\<close>

text \<open>
  The body of a response both workers accept as a page: status 200, a body that parses
  and has \<^verbatim>\<open>data\<close>. For every other outcome both workers put \<^verbatim>\<open>None\<close> and break.
\<close>

definition page_body :: "outcome \<Rightarrow> body option" where
  "page_body oc =
     (case oc of
        RequestException \<Rightarrow> None
      | Response sc js \<Rightarrow>
          if sc \<noteq> 200 then None
          else
            (case js of
               None \<Rightarrow> None
             | Some d \<Rightarrow> (case data d of None \<Rightarrow> None | Some items \<Rightarrow> Some d)))"

definition page_items :: "outcome \<Rightarrow> item list" where
  "page_items oc =
     (case page_body oc of
        None \<Rightarrow> []
      | Some d \<Rightarrow> (case data d of None \<Rightarrow> [] | Some items \<Rightarrow> items))"

text \<open>An outcome after which no further request is made.\<close>

definition terminal :: "outcome \<Rightarrow> bool" where
  "terminal oc = (case page_body oc of None \<Rightarrow> True | Some d \<Rightarrow> no_more d)"

definition has_token :: "body \<Rightarrow> bool" where
  "has_token d = (case metaData d of None \<Rightarrow> False | Some m \<Rightarrow> nextPageLink m \<noteq> None)"

text \<open>The protocol's rule for a page: one that announces more pages carries the token.\<close>

definition token_ok :: "outcome \<Rightarrow> bool" where
  "token_ok oc = (case page_body oc of None \<Rightarrow> True | Some d \<Rightarrow> no_more d \<or> has_token d)"

text \<open>The continuation token of a page, if it has one.\<close>

definition token_of :: "outcome \<Rightarrow> json option" where
  "token_of oc =
     (case page_body oc of
        None \<Rightarrow> None
      | Some d \<Rightarrow> (case metaData d of None \<Rightarrow> None | Some m \<Rightarrow> nextPageLink m))"

text \<open>The test of line 178 of the flow-metrics worker: the page is one summary element.\<close>

definition only_other :: "item list \<Rightarrow> bool" where
  "only_other items = (length items = 1 \<and> is_other (items ! 0))"

definition suppressed :: "outcome \<Rightarrow> bool" where
  "suppressed oc = (page_body oc \<noteq> None \<and> only_other (page_items oc))"

text \<open>
  A response with a status other than 200, or one with status 200 whose body parses and
  has no \<^verbatim>\<open>data\<close>.
\<close>

definition rejected :: "outcome \<Rightarrow> bool" where
  "rejected oc =
     (case oc of
        RequestException \<Rightarrow> False
      | Response sc js \<Rightarrow>
          sc \<noteq> 200 \<or> (case js of None \<Rightarrow> False | Some d \<Rightarrow> data d = None))"

text \<open>
  A sequence of successful pages that ends pagination: every page but the last announces
  more pages and carries the token, the last one does not announce more.
\<close>

fun valid_pages :: "outcome list \<Rightarrow> bool" where
  "valid_pages [] = False"
| "valid_pages [oc] = (page_body oc \<noteq> None \<and> terminal oc)"
| "valid_pages (oc # oc' # script) =
     (page_body oc \<noteq> None \<and> \<not> terminal oc \<and> token_ok oc \<and> valid_pages (oc' # script))"

text \<open>The state in which the next request body can be built.\<close>

definition body_ok :: "bool \<Rightarrow> body option \<Rightarrow> bool" where
  "body_ok first_page data_var =
     (first_page \<or> (case data_var of None \<Rightarrow> False | Some d \<Rightarrow> has_token d))"

definition kept :: "item list \<Rightarrow> item list" where
  "kept items = filter (\<lambda>item. \<not> is_other item) items"

text \<open>The text a list of items adds to the file, by the value of \<^verbatim>\<open>FirstElement\<close>.\<close>

definition items_text :: "(item \<Rightarrow> nat \<Rightarrow> string list) \<Rightarrow> bool \<Rightarrow> item list \<Rightarrow> string" where
  "items_text dumps_lines FirstElement items =
     (if FirstElement then
        str_join '',\<newline>'' (map (\<lambda>item. write_json_with_indent dumps_lines item 4) items)
      else
        concat (map (\<lambda>item. '',\<newline>'' @ write_json_with_indent dumps_lines item 4) items))"

lemmas eval_defs =
  flow_fetch_data_worker_def events_fetch_data_worker_def flow_body_def events_body_def
  flow_handle_def events_handle_def next_page_link_def no_more_def is_other_def dict_get_def
  page_body_def page_items_def terminal_def has_token_def token_ok_def token_of_def
  only_other_def suppressed_def rejected_def body_ok_def kept_def keys_def
  flow_main_def events_main_def flow_main_write_def events_main_write_def
  flow_loop.simps events_loop.simps

section \<open>One pass of the fetch loops\<close>

lemma flow_handle_cases:
  "flow_handle fp oc =
     (case page_body oc of
        None \<Rightarrow> Stop [None]
      | Some d \<Rightarrow>
          (if only_other (page_items oc) then
             (if no_more d then Stop [None] else Continue [] fp d)
           else
             (if no_more d then Stop [Some (page_items oc), None]
              else Continue [Some (page_items oc)] False d)))"
proof (cases oc)
  case RequestException
  then show ?thesis by (simp add: flow_handle_def page_body_def)
next
  case (Response sc js)
  show ?thesis
  proof (cases js)
    case None
    with Response show ?thesis by (simp add: flow_handle_def page_body_def)
  next
    case (Some d)
    with Response show ?thesis
      by (cases "data d") (simp_all add: flow_handle_def page_body_def page_items_def only_other_def)
  qed
qed

lemma events_handle_cases:
  "events_handle fp oc =
     (case page_body oc of
        None \<Rightarrow> Stop [None]
      | Some d \<Rightarrow>
          (if no_more d then Stop [Some (page_items oc), None]
           else Continue [Some (page_items oc)] False d))"
proof (cases oc)
  case RequestException
  then show ?thesis by (simp add: events_handle_def page_body_def)
next
  case (Response sc js)
  show ?thesis
  proof (cases js)
    case None
    with Response show ?thesis by (simp add: events_handle_def page_body_def)
  next
    case (Some d)
    with Response show ?thesis
      by (cases "data d") (simp_all add: events_handle_def page_body_def page_items_def)
  qed
qed

lemma page_body_data: "page_body oc = Some d \<Longrightarrow> data d = Some (page_items oc) \<and> oc = Response 200 (Some d)"
  by (cases oc) (auto simp: page_body_def page_items_def split: option.splits if_splits)

lemma flow_handle_terminal: "terminal oc \<Longrightarrow> \<exists>q. flow_handle fp oc = Stop q"
  by (cases "page_body oc") (simp_all add: flow_handle_cases terminal_def)

lemma events_handle_terminal: "terminal oc \<Longrightarrow> \<exists>q. events_handle fp oc = Stop q"
  by (cases "page_body oc") (simp_all add: events_handle_cases terminal_def)

lemma flow_handle_not_terminal:
  "\<not> terminal oc \<Longrightarrow>
   \<exists>d. page_body oc = Some d \<and> \<not> no_more d \<and>
       flow_handle fp oc =
         (if only_other (page_items oc) then Continue [] fp d
          else Continue [Some (page_items oc)] False d)"
  by (cases "page_body oc") (simp_all add: flow_handle_cases terminal_def)

lemma events_handle_not_terminal:
  "\<not> terminal oc \<Longrightarrow>
   \<exists>d. page_body oc = Some d \<and> \<not> no_more d \<and>
       events_handle fp oc = Continue [Some (page_items oc)] False d"
  by (cases "page_body oc") (simp_all add: events_handle_cases terminal_def)

lemma flow_handle_Continue:
  "flow_handle fp oc = Continue q fp' d \<Longrightarrow>
   page_body oc = Some d \<and> \<not> no_more d \<and>
   (if only_other (page_items oc) then q = [] \<and> fp' = fp
    else q = [Some (page_items oc)] \<and> fp' = False)"
  by (cases "page_body oc") (simp_all add: flow_handle_cases split: if_splits)

lemma events_handle_Continue:
  "events_handle fp oc = Continue q fp' d \<Longrightarrow>
   page_body oc = Some d \<and> \<not> no_more d \<and> q = [Some (page_items oc)] \<and> fp' = False"
  by (cases "page_body oc") (simp_all add: events_handle_cases split: if_splits)

lemma flow_handle_Stop:
  "flow_handle fp oc = Stop q \<Longrightarrow>
   terminal oc \<and>
   (q = [None] \<or> (page_body oc \<noteq> None \<and> \<not> only_other (page_items oc) \<and> q = [Some (page_items oc), None]))"
  by (cases "page_body oc") (auto simp add: flow_handle_cases terminal_def split: if_splits)

lemma events_handle_Stop:
  "events_handle fp oc = Stop q \<Longrightarrow>
   terminal oc \<and> (q = [None] \<or> (page_body oc \<noteq> None \<and> q = [Some (page_items oc), None]))"
  by (cases "page_body oc") (auto simp add: events_handle_cases terminal_def split: if_splits)

lemma flow_body_ok: "body_ok fp dv \<Longrightarrow> \<exists>b. flow_body E e s t l fp dv = Inr b"
  by (auto simp: body_ok_def flow_body_def next_page_link_def has_token_def split: option.splits)

lemma events_body_ok: "body_ok fp dv \<Longrightarrow> \<exists>b. events_body e s t v l fp dv = Inr b"
  by (auto simp: body_ok_def events_body_def next_page_link_def has_token_def split: option.splits)

lemma flow_loop_Continue:
  assumes "flow_body E e s t l fp dv = Inr b" and "flow_handle fp oc = Continue q fp' d"
  shows "requests (flow_loop E e s t l fp dv (oc # rest)) = b # requests (flow_loop E e s t l fp' (Some d) rest)"
    and "queue (flow_loop E e s t l fp dv (oc # rest)) = q @ queue (flow_loop E e s t l fp' (Some d) rest)"
    and "status (flow_loop E e s t l fp dv (oc # rest)) = status (flow_loop E e s t l fp' (Some d) rest)"
  using assms by (simp_all split: run.split)

lemma flow_loop_Stop:
  assumes "flow_body E e s t l fp dv = Inr b" and "flow_handle fp oc = Stop q"
  shows "flow_loop E e s t l fp dv (oc # rest) = Run [b] q Finished"
  using assms by simp

lemma flow_loop_Raised:
  assumes "flow_body E e s t l fp dv = Inl err"
  shows "flow_loop E e s t l fp dv os = Run [] [] (Raised err)"
  using assms by (cases os) simp_all

lemma events_loop_Continue:
  assumes "events_body e s t v l fp dv = Inr b" and "events_handle fp oc = Continue q fp' d"
  shows "requests (events_loop e s t v l fp dv (oc # rest)) = b # requests (events_loop e s t v l fp' (Some d) rest)"
    and "queue (events_loop e s t v l fp dv (oc # rest)) = q @ queue (events_loop e s t v l fp' (Some d) rest)"
    and "status (events_loop e s t v l fp dv (oc # rest)) = status (events_loop e s t v l fp' (Some d) rest)"
  using assms by (simp_all split: run.split)

lemma events_loop_Stop:
  assumes "events_body e s t v l fp dv = Inr b" and "events_handle fp oc = Stop q"
  shows "events_loop e s t v l fp dv (oc # rest) = Run [b] q Finished"
  using assms by simp

lemma events_loop_Raised:
  assumes "events_body e s t v l fp dv = Inl err"
  shows "events_loop e s t v l fp dv os = Run [] [] (Raised err)"
  using assms by (cases os) simp_all

section \<open>The messages of a whole run\<close>

lemma flow_queue_shape:
  "\<exists>bs. queue (flow_loop E e s t l fp dv os) =
         map Some bs @ (if status (flow_loop E e s t l fp dv os) = Finished then [None] else [])"
proof (induction os arbitrary: fp dv)
  case Nil
  have "queue (flow_loop E e s t l fp dv []) = map Some []"
       "status (flow_loop E e s t l fp dv []) \<noteq> Finished"
    by (simp_all split: sum.split)
  then show ?case by auto
next
  case (Cons oc os)
  show ?case
  proof (cases "flow_body E e s t l fp dv")
    case (Inl err)
    have "flow_loop E e s t l fp dv (oc # os) = Run [] (map Some []) (Raised err)"
      using Inl by simp
    then show ?thesis by simp
  next
    case (Inr b)
    show ?thesis
    proof (cases "flow_handle fp oc")
      case (Stop q)
      from flow_handle_Stop[OF Stop] obtain bs where "q = map Some bs @ [None]"
        by (metis append_Cons append_Nil list.simps(8,9))
      with flow_loop_Stop[OF Inr Stop] show ?thesis by auto
    next
      case (Continue q fp' d)
      from flow_handle_Continue[OF Continue] obtain bs where bs: "q = map Some bs"
        by (metis list.simps(8,9))
      obtain cs where cs: "queue (flow_loop E e s t l fp' (Some d) os) =
         map Some cs @ (if status (flow_loop E e s t l fp' (Some d) os) = Finished then [None] else [])"
        using Cons.IH by blast
      have "queue (flow_loop E e s t l fp dv (oc # os)) =
         map Some (bs @ cs) @ (if status (flow_loop E e s t l fp dv (oc # os)) = Finished then [None] else [])"
        unfolding flow_loop_Continue[OF Inr Continue] cs bs by simp
      then show ?thesis by blast
    qed
  qed
qed

lemma events_queue_shape:
  "\<exists>bs. queue (events_loop e s t v l fp dv os) =
         map Some bs @ (if status (events_loop e s t v l fp dv os) = Finished then [None] else [])"
proof (induction os arbitrary: fp dv)
  case Nil
  have "queue (events_loop e s t v l fp dv []) = map Some []"
       "status (events_loop e s t v l fp dv []) \<noteq> Finished"
    by (simp_all split: sum.split)
  then show ?case by auto
next
  case (Cons oc os)
  show ?case
  proof (cases "events_body e s t v l fp dv")
    case (Inl err)
    have "events_loop e s t v l fp dv (oc # os) = Run [] (map Some []) (Raised err)"
      using Inl by simp
    then show ?thesis by simp
  next
    case (Inr b)
    show ?thesis
    proof (cases "events_handle fp oc")
      case (Stop q)
      from events_handle_Stop[OF Stop] obtain bs where "q = map Some bs @ [None]"
        by (metis append_Cons append_Nil list.simps(8,9))
      with events_loop_Stop[OF Inr Stop] show ?thesis by auto
    next
      case (Continue q fp' d)
      from events_handle_Continue[OF Continue] have bs: "q = map Some [page_items oc]"
        by simp
      obtain cs where cs: "queue (events_loop e s t v l fp' (Some d) os) =
         map Some cs @ (if status (events_loop e s t v l fp' (Some d) os) = Finished then [None] else [])"
        using Cons.IH by blast
      have "queue (events_loop e s t v l fp dv (oc # os)) =
         map Some ([page_items oc] @ cs) @ (if status (events_loop e s t v l fp dv (oc # os)) = Finished then [None] else [])"
        unfolding events_loop_Continue[OF Inr Continue] cs bs by simp
      then show ?thesis by blast
    qed
  qed
qed

lemma token_ok_body_ok:
  "token_ok oc \<Longrightarrow> page_body oc = Some d \<Longrightarrow> \<not> no_more d \<Longrightarrow> body_ok fp (Some d)"
  by (simp add: token_ok_def body_ok_def)

lemma flow_finishes:
  "\<forall>oc\<in>set os. token_ok oc \<Longrightarrow> \<exists>oc\<in>set os. terminal oc \<Longrightarrow> body_ok fp dv \<Longrightarrow>
   status (flow_loop E e s t l fp dv os) = Finished"
proof (induction os arbitrary: fp dv)
  case Nil
  then show ?case by simp
next
  case (Cons oc os)
  from flow_body_ok[OF Cons.prems(3)] obtain b where b: "flow_body E e s t l fp dv = Inr b"
    by blast
  show ?case
  proof (cases "terminal oc")
    case True
    from flow_handle_terminal[OF True] obtain q where "flow_handle fp oc = Stop q" by blast
    from flow_loop_Stop[OF b this] show ?thesis by simp
  next
    case False
    from flow_handle_not_terminal[OF False, of fp] obtain d q fp'
      where d: "page_body oc = Some d" "\<not> no_more d" and h: "flow_handle fp oc = Continue q fp' d"
      by (metis (full_types))
    have ok: "body_ok fp' (Some d)"
      using Cons.prems(1) d by (auto intro: token_ok_body_ok)
    have "\<exists>oc\<in>set os. terminal oc" using Cons.prems(2) False by auto
    moreover have "\<forall>oc\<in>set os. token_ok oc" using Cons.prems(1) by simp
    ultimately have "status (flow_loop E e s t l fp' (Some d) os) = Finished"
      using Cons.IH ok by blast
    then show ?thesis unfolding flow_loop_Continue[OF b h] .
  qed
qed

lemma events_finishes:
  "\<forall>oc\<in>set os. token_ok oc \<Longrightarrow> \<exists>oc\<in>set os. terminal oc \<Longrightarrow> body_ok fp dv \<Longrightarrow>
   status (events_loop e s t v l fp dv os) = Finished"
proof (induction os arbitrary: fp dv)
  case Nil
  then show ?case by simp
next
  case (Cons oc os)
  from events_body_ok[OF Cons.prems(3)] obtain b where b: "events_body e s t v l fp dv = Inr b"
    by blast
  show ?case
  proof (cases "terminal oc")
    case True
    from events_handle_terminal[OF True] obtain q where "events_handle fp oc = Stop q" by blast
    from events_loop_Stop[OF b this] show ?thesis by simp
  next
    case False
    from events_handle_not_terminal[OF False, of fp] obtain d
      where d: "page_body oc = Some d" "\<not> no_more d"
        and h: "events_handle fp oc = Continue [Some (page_items oc)] False d"
      by blast
    have ok: "body_ok False (Some d)"
      using Cons.prems(1) d by (auto intro: token_ok_body_ok)
    have "\<exists>oc\<in>set os. terminal oc" using Cons.prems(2) False by auto
    moreover have "\<forall>oc\<in>set os. token_ok oc" using Cons.prems(1) by simp
    ultimately have "status (events_loop e s t v l False (Some d) os) = Finished"
      using Cons.IH ok by blast
    then show ?thesis unfolding events_loop_Continue[OF b h] .
  qed
qed

text \<open>From here on the loops are unfolded only through the lemmas above.\<close>

declare flow_loop.simps [simp del] events_loop.simps [simp del]

section \<open>A run and its prefixes\<close>

lemma rejected_page_body: "rejected oc \<Longrightarrow> page_body oc = None"
  by (cases oc) (auto simp: rejected_def page_body_def split: option.splits)

lemma flow_queue_no_end:
  "status (flow_loop E e s t l fp dv os) \<noteq> Finished \<Longrightarrow>
   None \<notin> set (queue (flow_loop E e s t l fp dv os))"
  using flow_queue_shape[of E e s t l fp dv os] by auto

lemma events_queue_no_end:
  "status (events_loop e s t v l fp dv os) \<noteq> Finished \<Longrightarrow>
   None \<notin> set (queue (events_loop e s t v l fp dv os))"
  using events_queue_shape[of e s t v l fp dv os] by auto

lemma flow_prefix:
  "status (flow_loop E e s t l fp dv pre) = AwaitingResponse \<Longrightarrow>
   \<exists>fp' dv' b. flow_body E e s t l fp' dv' = Inr b \<and>
     length (requests (flow_loop E e s t l fp dv pre)) = Suc (length pre) \<and>
     (\<forall>os. requests (flow_loop E e s t l fp dv (pre @ os)) =
             butlast (requests (flow_loop E e s t l fp dv pre)) @
             requests (flow_loop E e s t l fp' dv' os) \<and>
           queue (flow_loop E e s t l fp dv (pre @ os)) =
             queue (flow_loop E e s t l fp dv pre) @ queue (flow_loop E e s t l fp' dv' os) \<and>
           status (flow_loop E e s t l fp dv (pre @ os)) =
             status (flow_loop E e s t l fp' dv' os))"
proof (induction pre arbitrary: fp dv)
  case Nil
  obtain b where b: "flow_body E e s t l fp dv = Inr b"
  proof (cases "flow_body E e s t l fp dv")
    case (Inl err)
    from flow_loop_Raised[OF Inl, of "[]"] Nil show ?thesis by simp
  next
    case (Inr b)
    then show ?thesis using that by blast
  qed
  then have "flow_loop E e s t l fp dv [] = Run [b] [] AwaitingResponse" by (simp add: flow_loop.simps)
  with b show ?case by (intro exI[of _ fp] exI[of _ dv] exI[of _ b]) simp
next
  case (Cons oc pre)
  obtain b where b: "flow_body E e s t l fp dv = Inr b"
  proof (cases "flow_body E e s t l fp dv")
    case (Inl err)
    from flow_loop_Raised[OF Inl, of "oc # pre"] Cons.prems show ?thesis by simp
  next
    case (Inr b)
    then show ?thesis using that by blast
  qed
  obtain q fp1 d where h: "flow_handle fp oc = Continue q fp1 d"
  proof (cases "flow_handle fp oc")
    case (Stop q)
    from flow_loop_Stop[OF b Stop, of pre] Cons.prems show ?thesis by simp
  next
    case (Continue q fp1 d)
    then show ?thesis using that by blast
  qed
  have st: "status (flow_loop E e s t l fp1 (Some d) pre) = AwaitingResponse"
    using Cons.prems unfolding flow_loop_Continue[OF b h] .
  from Cons.IH[OF st] obtain fp' dv' b' where
    b': "flow_body E e s t l fp' dv' = Inr b'" and
    len: "length (requests (flow_loop E e s t l fp1 (Some d) pre)) = Suc (length pre)" and
    rest: "\<And>os. requests (flow_loop E e s t l fp1 (Some d) (pre @ os)) =
             butlast (requests (flow_loop E e s t l fp1 (Some d) pre)) @
             requests (flow_loop E e s t l fp' dv' os) \<and>
           queue (flow_loop E e s t l fp1 (Some d) (pre @ os)) =
             queue (flow_loop E e s t l fp1 (Some d) pre) @ queue (flow_loop E e s t l fp' dv' os) \<and>
           status (flow_loop E e s t l fp1 (Some d) (pre @ os)) =
             status (flow_loop E e s t l fp' dv' os)"
    by blast
  have ne: "requests (flow_loop E e s t l fp1 (Some d) pre) \<noteq> []" using len by auto
  have "\<And>os. requests (flow_loop E e s t l fp dv ((oc # pre) @ os)) =
             butlast (requests (flow_loop E e s t l fp dv (oc # pre))) @
             requests (flow_loop E e s t l fp' dv' os) \<and>
           queue (flow_loop E e s t l fp dv ((oc # pre) @ os)) =
             queue (flow_loop E e s t l fp dv (oc # pre)) @ queue (flow_loop E e s t l fp' dv' os) \<and>
           status (flow_loop E e s t l fp dv ((oc # pre) @ os)) =
             status (flow_loop E e s t l fp' dv' os)"
    using rest ne by (simp add: flow_loop_Continue[OF b h])
  moreover have "length (requests (flow_loop E e s t l fp dv (oc # pre))) = Suc (length (oc # pre))"
    using len by (simp add: flow_loop_Continue[OF b h])
  ultimately show ?case using b' by blast
qed

lemma events_prefix:
  "status (events_loop e s t v l fp dv pre) = AwaitingResponse \<Longrightarrow>
   \<exists>fp' dv' b. events_body e s t v l fp' dv' = Inr b \<and>
     length (requests (events_loop e s t v l fp dv pre)) = Suc (length pre) \<and>
     (\<forall>os. requests (events_loop e s t v l fp dv (pre @ os)) =
             butlast (requests (events_loop e s t v l fp dv pre)) @
             requests (events_loop e s t v l fp' dv' os) \<and>
           queue (events_loop e s t v l fp dv (pre @ os)) =
             queue (events_loop e s t v l fp dv pre) @ queue (events_loop e s t v l fp' dv' os) \<and>
           status (events_loop e s t v l fp dv (pre @ os)) =
             status (events_loop e s t v l fp' dv' os))"
proof (induction pre arbitrary: fp dv)
  case Nil
  obtain b where b: "events_body e s t v l fp dv = Inr b"
  proof (cases "events_body e s t v l fp dv")
    case (Inl err)
    from events_loop_Raised[OF Inl, of "[]"] Nil show ?thesis by simp
  next
    case (Inr b)
    then show ?thesis using that by blast
  qed
  then have "events_loop e s t v l fp dv [] = Run [b] [] AwaitingResponse" by (simp add: events_loop.simps)
  with b show ?case by (intro exI[of _ fp] exI[of _ dv] exI[of _ b]) simp
next
  case (Cons oc pre)
  obtain b where b: "events_body e s t v l fp dv = Inr b"
  proof (cases "events_body e s t v l fp dv")
    case (Inl err)
    from events_loop_Raised[OF Inl, of "oc # pre"] Cons.prems show ?thesis by simp
  next
    case (Inr b)
    then show ?thesis using that by blast
  qed
  obtain q fp1 d where h: "events_handle fp oc = Continue q fp1 d"
  proof (cases "events_handle fp oc")
    case (Stop q)
    from events_loop_Stop[OF b Stop, of pre] Cons.prems show ?thesis by simp
  next
    case (Continue q fp1 d)
    then show ?thesis using that by blast
  qed
  have st: "status (events_loop e s t v l fp1 (Some d) pre) = AwaitingResponse"
    using Cons.prems unfolding events_loop_Continue[OF b h] .
  from Cons.IH[OF st] obtain fp' dv' b' where
    b': "events_body e s t v l fp' dv' = Inr b'" and
    len: "length (requests (events_loop e s t v l fp1 (Some d) pre)) = Suc (length pre)" and
    rest: "\<And>os. requests (events_loop e s t v l fp1 (Some d) (pre @ os)) =
             butlast (requests (events_loop e s t v l fp1 (Some d) pre)) @
             requests (events_loop e s t v l fp' dv' os) \<and>
           queue (events_loop e s t v l fp1 (Some d) (pre @ os)) =
             queue (events_loop e s t v l fp1 (Some d) pre) @ queue (events_loop e s t v l fp' dv' os) \<and>
           status (events_loop e s t v l fp1 (Some d) (pre @ os)) =
             status (events_loop e s t v l fp' dv' os)"
    by blast
  have ne: "requests (events_loop e s t v l fp1 (Some d) pre) \<noteq> []" using len by auto
  have "\<And>os. requests (events_loop e s t v l fp dv ((oc # pre) @ os)) =
             butlast (requests (events_loop e s t v l fp dv (oc # pre))) @
             requests (events_loop e s t v l fp' dv' os) \<and>
           queue (events_loop e s t v l fp dv ((oc # pre) @ os)) =
             queue (events_loop e s t v l fp dv (oc # pre)) @ queue (events_loop e s t v l fp' dv' os) \<and>
           status (events_loop e s t v l fp dv ((oc # pre) @ os)) =
             status (events_loop e s t v l fp' dv' os)"
    using rest ne by (simp add: events_loop_Continue[OF b h])
  moreover have "length (requests (events_loop e s t v l fp dv (oc # pre))) = Suc (length (oc # pre))"
    using len by (simp add: events_loop_Continue[OF b h])
  ultimately show ?case using b' by blast
qed

lemma flow_rejected_run:
  assumes "rejected oc" and "status (flow_loop E e s t l fp dv pre) = AwaitingResponse"
  shows "queue (flow_loop E e s t l fp dv (pre @ oc # rest)) =
           queue (flow_loop E e s t l fp dv pre) @ [None] \<and>
         None \<notin> set (queue (flow_loop E e s t l fp dv pre)) \<and>
         status (flow_loop E e s t l fp dv (pre @ oc # rest)) = Finished \<and>
         length (requests (flow_loop E e s t l fp dv (pre @ oc # rest))) = Suc (length pre)"
proof -
  from flow_prefix[OF assms(2)] obtain fp' dv' b where
    b: "flow_body E e s t l fp' dv' = Inr b" and
    len: "length (requests (flow_loop E e s t l fp dv pre)) = Suc (length pre)" and
    rest: "\<And>os. requests (flow_loop E e s t l fp dv (pre @ os)) =
             butlast (requests (flow_loop E e s t l fp dv pre)) @
             requests (flow_loop E e s t l fp' dv' os) \<and>
           queue (flow_loop E e s t l fp dv (pre @ os)) =
             queue (flow_loop E e s t l fp dv pre) @ queue (flow_loop E e s t l fp' dv' os) \<and>
           status (flow_loop E e s t l fp dv (pre @ os)) =
             status (flow_loop E e s t l fp' dv' os)"
    by blast
  have "flow_handle fp' oc = Stop [None]"
    using rejected_page_body[OF assms(1)] by (simp add: flow_handle_cases)
  from flow_loop_Stop[OF b this]
  have r: "flow_loop E e s t l fp' dv' (oc # rest) = Run [b] [None] Finished" .
  have "None \<notin> set (queue (flow_loop E e s t l fp dv pre))"
    using assms(2) by (intro flow_queue_no_end) simp
  then show ?thesis using rest[of "oc # rest"] r len by simp
qed

lemma events_rejected_run:
  assumes "rejected oc" and "status (events_loop e s t v l fp dv pre) = AwaitingResponse"
  shows "queue (events_loop e s t v l fp dv (pre @ oc # rest)) =
           queue (events_loop e s t v l fp dv pre) @ [None] \<and>
         None \<notin> set (queue (events_loop e s t v l fp dv pre)) \<and>
         status (events_loop e s t v l fp dv (pre @ oc # rest)) = Finished \<and>
         length (requests (events_loop e s t v l fp dv (pre @ oc # rest))) = Suc (length pre)"
proof -
  from events_prefix[OF assms(2)] obtain fp' dv' b where
    b: "events_body e s t v l fp' dv' = Inr b" and
    len: "length (requests (events_loop e s t v l fp dv pre)) = Suc (length pre)" and
    rest: "\<And>os. requests (events_loop e s t v l fp dv (pre @ os)) =
             butlast (requests (events_loop e s t v l fp dv pre)) @
             requests (events_loop e s t v l fp' dv' os) \<and>
           queue (events_loop e s t v l fp dv (pre @ os)) =
             queue (events_loop e s t v l fp dv pre) @ queue (events_loop e s t v l fp' dv' os) \<and>
           status (events_loop e s t v l fp dv (pre @ os)) =
             status (events_loop e s t v l fp' dv' os)"
    by blast
  have "events_handle fp' oc = Stop [None]"
    using rejected_page_body[OF assms(1)] by (simp add: events_handle_cases)
  from events_loop_Stop[OF b this]
  have r: "events_loop e s t v l fp' dv' (oc # rest) = Run [b] [None] Finished" .
  have "None \<notin> set (queue (events_loop e s t v l fp dv pre))"
    using assms(2) by (intro events_queue_no_end) simp
  then show ?thesis using rest[of "oc # rest"] r len by simp
qed

section \<open>The end-of-stream sentinel\<close>

text \<open>
  Claim C2. Whatever the transport does, the messages a fetch worker puts on the queue
  are batches followed by at most one \<^verbatim>\<open>None\<close>, which is then the last message, and it
  is there exactly when the worker left its loop by \<^verbatim>\<open>break\<close>. The worker does leave its
  loop so, and the \<^verbatim>\<open>None\<close> is sent exactly once, when every page that announces more
  pages carries a \<^verbatim>\<open>nextPageLink\<close> and some outcome of the transport ends pagination. The
  claim as written, for any sequence of outcomes, fails: a page that announces more pages
  without a token makes the next pass raise \<^verbatim>\<open>KeyError\<close> before any \<^verbatim>\<open>None\<close> is put.
\<close>

theorem fetcher_stream_end:
  "(\<exists>bs. queue (flow_fetch_data_worker E e s t l script) =
          map Some bs @
          (if status (flow_fetch_data_worker E e s t l script) = Finished then [None] else [])) \<and>
   (\<exists>bs. queue (events_fetch_data_worker e' s' t' v l' script) =
          map Some bs @
          (if status (events_fetch_data_worker e' s' t' v l' script) = Finished then [None] else [])) \<and>
   ((\<forall>oc\<in>set script. token_ok oc) \<and> (\<exists>oc\<in>set script. terminal oc) \<longrightarrow>
      status (flow_fetch_data_worker E e s t l script) = Finished \<and>
      status (events_fetch_data_worker e' s' t' v l' script) = Finished)"
proof (intro conjI impI)
  show "\<exists>bs. queue (flow_fetch_data_worker E e s t l script) =
          map Some bs @
          (if status (flow_fetch_data_worker E e s t l script) = Finished then [None] else [])"
    unfolding flow_fetch_data_worker_def by (rule flow_queue_shape)
  show "\<exists>bs. queue (events_fetch_data_worker e' s' t' v l' script) =
          map Some bs @
          (if status (events_fetch_data_worker e' s' t' v l' script) = Finished then [None] else [])"
    unfolding events_fetch_data_worker_def by (rule events_queue_shape)
next
  assume h: "(\<forall>oc\<in>set script. token_ok oc) \<and> (\<exists>oc\<in>set script. terminal oc)"
  have ok: "body_ok True None" by (simp add: body_ok_def)
  show "status (flow_fetch_data_worker E e s t l script) = Finished"
    unfolding flow_fetch_data_worker_def using h ok by (simp add: flow_finishes)
  show "status (events_fetch_data_worker e' s' t' v l' script) = Finished"
    unfolding events_fetch_data_worker_def using h ok by (simp add: events_finishes)
qed

theorem fetcher_stream_end_witness:
  "status (flow_fetch_data_worker 1 2 ''a'' ''b'' 3
     [Response 200 (Some (Body (Some [[(''id'', JNum 1)]])
        (Some (Meta (Some (JBool True)) (Some (JStr ''T1'')))))),
      Response 500 None]) = Finished \<and>
   status (events_fetch_data_worker 2 0 1 ''past12Months'' 3
     [Response 200 (Some (Body (Some [[(''id'', JNum 1)]])
        (Some (Meta (Some (JBool True)) (Some (JStr ''T1'')))))),
      Response 500 None]) = Finished \<and>
   queue (flow_fetch_data_worker 1 2 ''a'' ''b'' 3
     [Response 200 (Some (Body (Some [[(''id'', JNum 1)]])
        (Some (Meta (Some (JBool True)) (Some (JStr ''T1'')))))),
      Response 500 None]) = [Some [[(''id'', JNum 1)]], None]"
proof -
  let ?S = "[Response 200 (Some (Body (Some [[(''id'', JNum 1)]])
        (Some (Meta (Some (JBool True)) (Some (JStr ''T1'')))))),
      Response 500 None]"
  have h: "(\<forall>oc\<in>set ?S. token_ok oc) \<and> (\<exists>oc\<in>set ?S. terminal oc)"
    by (simp add: token_ok_def terminal_def page_body_def no_more_def has_token_def)
  have q: "queue (flow_fetch_data_worker 1 2 ''a'' ''b'' 3 ?S) = [Some [[(''id'', JNum 1)]], None]"
    by (simp add: eval_defs)
  from fetcher_stream_end[of 1 2 "''a''" "''b''" 3 ?S 2 0 1 "''past12Months''" 3] h q
  show ?thesis by blast
qed

theorem fetcher_stream_end_counterexample:
  "count_list (queue (flow_fetch_data_worker 1 2 ''a'' ''b'' 3
     [Response 200 (Some (Body (Some [[(''id'', JNum 1)]])
        (Some (Meta (Some (JBool True)) None)))),
      RequestException])) None = 0 \<and>
   count_list (queue (events_fetch_data_worker 2 0 1 ''past12Months'' 3
     [Response 200 (Some (Body (Some [[(''id'', JNum 1)]])
        (Some (Meta (Some (JBool True)) None)))),
      RequestException])) None = 0"
  by (simp add: eval_defs)

section \<open>Responses the workers reject\<close>

text \<open>
  Claim C4. A response with a status other than 200, and likewise a response whose body
  parses but has no \<^verbatim>\<open>data\<close>, makes either worker put \<^verbatim>\<open>None\<close> and nothing else and leave
  its loop, in whatever phase it is. In a whole run: when the worker has dealt with the
  outcomes \<open>pre\<close> and waits for the next response, and that response is such a one, the
  queue holds what was put before, with no \<^verbatim>\<open>None\<close> in it, followed by one \<^verbatim>\<open>None\<close>; the
  run is over and no further request is made, whatever the transport would answer next.
\<close>

theorem rejected_response_ends_stream:
  assumes "rejected oc"
  shows "flow_handle fp oc = Stop [None] \<and> events_handle fp oc = Stop [None] \<and>
    (status (flow_fetch_data_worker E e s t l pre) = AwaitingResponse \<longrightarrow>
       queue (flow_fetch_data_worker E e s t l (pre @ oc # rest)) =
         queue (flow_fetch_data_worker E e s t l pre) @ [None] \<and>
       None \<notin> set (queue (flow_fetch_data_worker E e s t l pre)) \<and>
       status (flow_fetch_data_worker E e s t l (pre @ oc # rest)) = Finished \<and>
       length (requests (flow_fetch_data_worker E e s t l (pre @ oc # rest))) = Suc (length pre)) \<and>
    (status (events_fetch_data_worker e' s' t' v l' pre) = AwaitingResponse \<longrightarrow>
       queue (events_fetch_data_worker e' s' t' v l' (pre @ oc # rest)) =
         queue (events_fetch_data_worker e' s' t' v l' pre) @ [None] \<and>
       None \<notin> set (queue (events_fetch_data_worker e' s' t' v l' pre)) \<and>
       status (events_fetch_data_worker e' s' t' v l' (pre @ oc # rest)) = Finished \<and>
       length (requests (events_fetch_data_worker e' s' t' v l' (pre @ oc # rest))) =
         Suc (length pre))"
proof -
  have "flow_handle fp oc = Stop [None]"
    using rejected_page_body[OF assms] by (simp add: flow_handle_cases)
  moreover have "events_handle fp oc = Stop [None]"
    using rejected_page_body[OF assms] by (simp add: events_handle_cases)
  ultimately show ?thesis
    unfolding flow_fetch_data_worker_def events_fetch_data_worker_def
    using flow_rejected_run[OF assms] events_rejected_run[OF assms] by blast
qed

theorem rejected_response_ends_stream_witness:
  "queue (flow_fetch_data_worker 1 2 ''a'' ''b'' 3
     ([Response 200 (Some (Body (Some [[(''id'', JNum 1)]])
         (Some (Meta (Some (JBool True)) (Some (JStr ''T1''))))))] @
      Response 200 (Some (Body None None)) #
      [Response 200 (Some (Body (Some [[(''id'', JNum 2)]]) None))])) =
     [Some [[(''id'', JNum 1)]], None] \<and>
   queue (events_fetch_data_worker 2 0 1 ''past12Months'' 3
     ([Response 200 (Some (Body (Some [[(''id'', JNum 1)]])
         (Some (Meta (Some (JBool True)) (Some (JStr ''T1''))))))] @
      Response 200 (Some (Body None None)) #
      [Response 200 (Some (Body (Some [[(''id'', JNum 2)]]) None))])) =
     [Some [[(''id'', JNum 1)]], None] \<and>
   flow_handle True (Response 200 (Some (Body None None))) = flow_handle True (Response 401 None)"
proof -
  let ?pre = "[Response 200 (Some (Body (Some [[(''id'', JNum 1)]])
         (Some (Meta (Some (JBool True)) (Some (JStr ''T1''))))))]"
  let ?oc = "Response 200 (Some (Body None None))"
  let ?rest = "[Response 200 (Some (Body (Some [[(''id'', JNum 2)]]) None))]"
  have r: "rejected ?oc" "rejected (Response 401 None)" by (simp_all add: rejected_def)
  have a: "status (flow_fetch_data_worker 1 2 ''a'' ''b'' 3 ?pre) = AwaitingResponse"
    by (simp add: eval_defs)
  have a': "status (events_fetch_data_worker 2 0 1 ''past12Months'' 3 ?pre) = AwaitingResponse"
    by (simp add: eval_defs)
  have q: "queue (flow_fetch_data_worker 1 2 ''a'' ''b'' 3 ?pre) = [Some [[(''id'', JNum 1)]]]"
    by (simp add: eval_defs)
  have q': "queue (events_fetch_data_worker 2 0 1 ''past12Months'' 3 ?pre) = [Some [[(''id'', JNum 1)]]]"
    by (simp add: eval_defs)
  from rejected_response_ends_stream[OF r(1), of True 1 2 "''a''" "''b''" 3 ?pre ?rest 2 0 1 "''past12Months''" 3]
    rejected_response_ends_stream[OF r(2), of True 1 2 "''a''" "''b''" 3 ?pre ?rest 2 0 1 "''past12Months''" 3]
    a a' q q'
  show ?thesis by simp
qed

section \<open>A page that announces more pages without a token\<close>

lemma flow_loop_first_page: "flow_loop E e s t l True dv os = flow_loop E e s t l True None os"
  by (cases os) (simp_all add: flow_loop.simps flow_body_def)

lemma flow_first_body:
  "flow_body E e s t l True dv =
     Inr [(''edgeId'', JNum E), (''enterpriseId'', JNum e),
          (''interval'', JObj [(''start'', JStr s), (''end'', JStr t)]),
          (''limit'', JNum l), (''_filterSpec'', JBool False)]"
  by (simp add: flow_body_def)

lemma events_first_body:
  "events_body e s t v l True dv =
     Inr [(''filter'', JObj [(''limit'', JNum l)]),
          (''interval'', JObj [(''start'', JNum s), (''end'', JNum t), (''type'', JStr v)]),
          (''enterpriseId'', JNum e)]"
  by (simp add: events_body_def)

lemma no_token_KeyError: "\<not> has_token d \<Longrightarrow> next_page_link (Some d) = Inl KeyError"
  by (auto simp add: has_token_def next_page_link_def split: option.splits)

text \<open>
  Claim C9. A response with \<^verbatim>\<open>data\<close> whose \<^verbatim>\<open>metaData.more\<close> is true and whose \<^verbatim>\<open>metaData\<close>
  has no \<^verbatim>\<open>nextPageLink\<close>, received as the first response: the events worker puts the
  batch, and building the next request body raises \<^verbatim>\<open>KeyError\<close>; the worker ends with the
  batch as the only message on the queue, without \<^verbatim>\<open>None\<close>, whatever the transport would
  answer next. The flow-metrics worker does the same unless the page is one summary
  element named other (then it repeats the first-page request, which needs no token).
\<close>

theorem missing_token_raises:
  assumes "data d = Some items" and "\<not> no_more d" and "\<not> has_token d"
  shows "status (events_fetch_data_worker e' s' t' v l' (Response 200 (Some d) # rest)) =
           Raised KeyError \<and>
         queue (events_fetch_data_worker e' s' t' v l' (Response 200 (Some d) # rest)) =
           [Some items] \<and>
         (\<not> only_other items \<longrightarrow>
            status (flow_fetch_data_worker E e s t l (Response 200 (Some d) # rest)) =
              Raised KeyError \<and>
            queue (flow_fetch_data_worker E e s t l (Response 200 (Some d) # rest)) =
              [Some items])"
proof -
  let ?oc = "Response 200 (Some d)"
  have pb: "page_body ?oc = Some d" and pi: "page_items ?oc = items"
    using assms(1) by (simp_all add: page_body_def page_items_def)
  have eh: "events_handle True ?oc = Continue [Some items] False d"
    using pb pi assms(2) by (simp add: events_handle_cases)
  have eb: "events_body e' s' t' v l' False (Some d) = Inl KeyError"
    using no_token_KeyError[OF assms(3)] by (simp add: events_body_def)
  have ev: "status (events_fetch_data_worker e' s' t' v l' (?oc # rest)) = Raised KeyError \<and>
         queue (events_fetch_data_worker e' s' t' v l' (?oc # rest)) = [Some items]"
    unfolding events_fetch_data_worker_def
    by (simp add: events_loop_Continue[OF events_first_body eh] events_loop_Raised[OF eb])
  have fl: "status (flow_fetch_data_worker E e s t l (?oc # rest)) = Raised KeyError \<and>
            queue (flow_fetch_data_worker E e s t l (?oc # rest)) = [Some items]"
    if no: "\<not> only_other items"
  proof -
    have fh: "flow_handle True ?oc = Continue [Some items] False d"
      using pb pi assms(2) no by (simp add: flow_handle_cases)
    have fb: "flow_body E e s t l False (Some d) = Inl KeyError"
      using no_token_KeyError[OF assms(3)] by (simp add: flow_body_def)
    show ?thesis
      unfolding flow_fetch_data_worker_def
      by (simp add: flow_loop_Continue[OF flow_first_body fh] flow_loop_Raised[OF fb])
  qed
  from ev fl show ?thesis by blast
qed

theorem missing_token_raises_witness:
  "status (events_fetch_data_worker 2 0 1 ''past12Months'' 3
     [Response 200 (Some (Body (Some [[(''id'', JNum 7)], [(''id'', JNum 8)]])
        (Some (Meta (Some (JBool True)) None)))),
      Response 200 (Some (Body (Some []) None))]) = Raised KeyError \<and>
   status (flow_fetch_data_worker 1 2 ''a'' ''b'' 3
     [Response 200 (Some (Body (Some [[(''id'', JNum 7)], [(''id'', JNum 8)]])
        (Some (Meta (Some (JBool True)) None)))),
      Response 200 (Some (Body (Some []) None))]) = Raised KeyError \<and>
   None \<notin> set (queue (flow_fetch_data_worker 1 2 ''a'' ''b'' 3
     [Response 200 (Some (Body (Some [[(''id'', JNum 7)], [(''id'', JNum 8)]])
        (Some (Meta (Some (JBool True)) None)))),
      Response 200 (Some (Body (Some []) None))])) \<and>
   None \<notin> set (queue (events_fetch_data_worker 2 0 1 ''past12Months'' 3
     [Response 200 (Some (Body (Some [[(''id'', JNum 7)], [(''id'', JNum 8)]])
        (Some (Meta (Some (JBool True)) None)))),
      Response 200 (Some (Body (Some []) None))]))"
proof -
  let ?d = "Body (Some [[(''id'', JNum 7)], [(''id'', JNum 8)]]) (Some (Meta (Some (JBool True)) None))"
  have a: "data ?d = Some [[(''id'', JNum 7)], [(''id'', JNum 8)]]" by simp
  have b: "\<not> no_more ?d" by (simp add: no_more_def)
  have c: "\<not> has_token ?d" by (simp add: has_token_def)
  have d: "\<not> only_other [[(''id'', JNum 7)], [(''id'', JNum 8)]]" by (simp add: only_other_def)
  from missing_token_raises[OF a b c, of 2 0 1 "''past12Months''" 3
      "[Response 200 (Some (Body (Some []) None))]" 1 2 "''a''" "''b''" 3] d
  show ?thesis by simp
qed

section \<open>A page that is one summary element\<close>

text \<open>
  Claim C3. In the flow-metrics worker, a response whose items are exactly one item named
  other puts no batch and leaves \<^verbatim>\<open>first_page\<close> as it is; the test for more pages of
  that same response still decides: \<^verbatim>\<open>None\<close> and stop when it fails, go on otherwise. As
  the first response with more pages announced, the worker posts the first-page body and
  then runs on the remaining outcomes as a fresh worker would: nothing of that page is on
  the queue and no \<^verbatim>\<open>None\<close> is put for it. The events worker has no such test: it puts
  that page as a batch and clears \<^verbatim>\<open>first_page\<close>.
\<close>

theorem flow_other_page_suppressed:
  assumes "data d = Some [item]" and "is_other item"
  shows "flow_handle fp (Response 200 (Some d)) =
           (if no_more d then Stop [None] else Continue [] fp d) \<and>
         (\<not> no_more d \<longrightarrow>
            requests (flow_fetch_data_worker E e s t l (Response 200 (Some d) # rest)) =
              [(''edgeId'', JNum E), (''enterpriseId'', JNum e),
               (''interval'', JObj [(''start'', JStr s), (''end'', JStr t)]),
               (''limit'', JNum l), (''_filterSpec'', JBool False)] #
              requests (flow_fetch_data_worker E e s t l rest) \<and>
            queue (flow_fetch_data_worker E e s t l (Response 200 (Some d) # rest)) =
              queue (flow_fetch_data_worker E e s t l rest) \<and>
            status (flow_fetch_data_worker E e s t l (Response 200 (Some d) # rest)) =
              status (flow_fetch_data_worker E e s t l rest))"
proof -
  let ?oc = "Response 200 (Some d)"
  have pb: "page_body ?oc = Some d" and pi: "page_items ?oc = [item]"
    using assms(1) by (simp_all add: page_body_def page_items_def)
  have oo: "only_other [item]" using assms(2) by (simp add: only_other_def)
  have h: "flow_handle fp ?oc = (if no_more d then Stop [None] else Continue [] fp d)" for fp
    using pb pi oo by (simp add: flow_handle_cases)
  have "requests (flow_loop E e s t l True None (?oc # rest)) =
              [(''edgeId'', JNum E), (''enterpriseId'', JNum e),
               (''interval'', JObj [(''start'', JStr s), (''end'', JStr t)]),
               (''limit'', JNum l), (''_filterSpec'', JBool False)] #
              requests (flow_loop E e s t l True None rest) \<and>
        queue (flow_loop E e s t l True None (?oc # rest)) = queue (flow_loop E e s t l True None rest) \<and>
        status (flow_loop E e s t l True None (?oc # rest)) = status (flow_loop E e s t l True None rest)"
    if "\<not> no_more d"
  proof -
    have c: "flow_handle True ?oc = Continue [] True d" using h that by simp
    show ?thesis
      by (simp add: flow_loop_Continue[OF flow_first_body c] flow_loop_first_page[of E e s t l "Some d"])
  qed
  with h show ?thesis unfolding flow_fetch_data_worker_def by blast
qed

theorem flow_other_page_suppressed_witness:
  "queue (flow_fetch_data_worker 1 2 ''a'' ''b'' 3
     [Response 200 (Some (Body (Some [[(''name'', JStr ''other'')]])
        (Some (Meta (Some (JBool True)) (Some (JStr ''T1'')))))),
      Response 200 (Some (Body (Some [[(''id'', JNum 4)]])
        (Some (Meta (Some (JBool False)) None))))]) =
     [Some [[(''id'', JNum 4)]], None] \<and>
   length (requests (flow_fetch_data_worker 1 2 ''a'' ''b'' 3
     [Response 200 (Some (Body (Some [[(''name'', JStr ''other'')]])
        (Some (Meta (Some (JBool True)) (Some (JStr ''T1'')))))),
      Response 200 (Some (Body (Some [[(''id'', JNum 4)]])
        (Some (Meta (Some (JBool False)) None))))])) = 2"
proof -
  let ?d = "Body (Some [[(''name'', JStr ''other'')]]) (Some (Meta (Some (JBool True)) (Some (JStr ''T1''))))"
  let ?rest = "[Response 200 (Some (Body (Some [[(''id'', JNum 4)]]) (Some (Meta (Some (JBool False)) None))))]"
  have a: "data ?d = Some [[(''name'', JStr ''other'')]]" by simp
  have b: "is_other [(''name'', JStr ''other'')]" by (simp add: is_other_def dict_get_def)
  have c: "\<not> no_more ?d" by (simp add: no_more_def)
  have q: "queue (flow_fetch_data_worker 1 2 ''a'' ''b'' 3 ?rest) = [Some [[(''id'', JNum 4)]], None]"
    by (simp add: eval_defs)
  have r: "length (requests (flow_fetch_data_worker 1 2 ''a'' ''b'' 3 ?rest)) = 1"
    by (simp add: eval_defs)
  from flow_other_page_suppressed[OF a b, of True 1 2 "''a''" "''b''" 3 ?rest] c q r
  show ?thesis by simp
qed

theorem events_other_page_counterexample:
  "queue (events_fetch_data_worker 2 0 1 ''past12Months'' 3
     [Response 200 (Some (Body (Some [[(''name'', JStr ''other'')]])
        (Some (Meta (Some (JBool True)) (Some (JStr ''T1'')))))),
      Response 200 (Some (Body (Some [[(''id'', JNum 4)]])
        (Some (Meta (Some (JBool False)) None))))]) =
     [Some [[(''name'', JStr ''other'')]], Some [[(''id'', JNum 4)]], None] \<and>
   events_handle True
     (Response 200 (Some (Body (Some [[(''name'', JStr ''other'')]])
        (Some (Meta (Some (JBool True)) (Some (JStr ''T1''))))))) =
     Continue [Some [[(''name'', JStr ''other'')]]] False
       (Body (Some [[(''name'', JStr ''other'')]])
          (Some (Meta (Some (JBool True)) (Some (JStr ''T1'')))))"
  by (simp add: eval_defs)

section \<open>What a batch is\<close>






text \<open>
  The flow-metrics worker on an empty \<^verbatim>\<open>data\<close> list: the branch that line 184 comments
  with \<^verbatim>\<open>Main payload is not empty, so put it on the queue\<close> runs and puts the empty list.
\<close>

lemma flow_empty_data_is_enqueued:
  "queue (flow_fetch_data_worker 1 2 ''a'' ''b'' 3
     [Response 200 (Some (Body (Some []) None))]) = [Some [], None]"
  by (simp add: eval_defs)

section \<open>The token of the next request\<close>

lemma flow_first_request:
  "requests (flow_loop E e s t l fp dv os) \<noteq> [] \<Longrightarrow>
   flow_body E e s t l fp dv = Inr (hd (requests (flow_loop E e s t l fp dv os)))"
proof (cases "flow_body E e s t l fp dv")
  case (Inl err)
  assume "requests (flow_loop E e s t l fp dv os) \<noteq> []"
  with flow_loop_Raised[OF Inl, of os] show ?thesis by simp
next
  case (Inr b)
  show ?thesis
  proof (cases os)
    case Nil
    with Inr show ?thesis by (simp add: flow_loop.simps)
  next
    case (Cons oc rest)
    show ?thesis
    proof (cases "flow_handle fp oc")
      case (Stop q)
      from flow_loop_Stop[OF Inr Stop, of rest] Inr Cons show ?thesis by simp
    next
      case (Continue q fp' d)
      from flow_loop_Continue(1)[OF Inr Continue, of rest] Inr Cons show ?thesis by simp
    qed
  qed
qed

lemma events_first_request:
  "requests (events_loop e s t v l fp dv os) \<noteq> [] \<Longrightarrow>
   events_body e s t v l fp dv = Inr (hd (requests (events_loop e s t v l fp dv os)))"
proof (cases "events_body e s t v l fp dv")
  case (Inl err)
  assume "requests (events_loop e s t v l fp dv os) \<noteq> []"
  with events_loop_Raised[OF Inl, of os] show ?thesis by simp
next
  case (Inr b)
  show ?thesis
  proof (cases os)
    case Nil
    with Inr show ?thesis by (simp add: events_loop.simps)
  next
    case (Cons oc rest)
    show ?thesis
    proof (cases "events_handle fp oc")
      case (Stop q)
      from events_loop_Stop[OF Inr Stop, of rest] Inr Cons show ?thesis by simp
    next
      case (Continue q fp' d)
      from events_loop_Continue(1)[OF Inr Continue, of rest] Inr Cons show ?thesis by simp
    qed
  qed
qed

lemma flow_next_body_token:
  "flow_body E e s t l False (Some d) = Inr b \<Longrightarrow> page_body oc = Some d \<Longrightarrow>
   token_of oc \<noteq> None \<and> dict_get b ''nextPageLink'' = token_of oc"
  by (auto simp: flow_body_def next_page_link_def token_of_def dict_get_def
           split: option.splits sum.splits)

lemma events_next_body_token:
  "events_body e s t v l False (Some d) = Inr b \<Longrightarrow> page_body oc = Some d \<Longrightarrow>
   token_of oc \<noteq> None \<and> dict_get b ''nextPageLink'' = token_of oc"
  by (auto simp: events_body_def next_page_link_def token_of_def dict_get_def
           split: option.splits sum.splits)

lemma events_next_request:
  "Suc n < length (requests (events_loop e s t v l fp dv os)) \<Longrightarrow>
   n < length os \<and> token_of (os ! n) \<noteq> None \<and>
   dict_get (requests (events_loop e s t v l fp dv os) ! Suc n) ''nextPageLink'' = token_of (os ! n)"
proof (induction os arbitrary: fp dv n)
  case Nil
  then show ?case by (simp add: events_loop.simps split: sum.splits)
next
  case (Cons oc os)
  obtain b where b: "events_body e s t v l fp dv = Inr b"
  proof (cases "events_body e s t v l fp dv")
    case (Inl err)
    from events_loop_Raised[OF Inl, of "oc # os"] Cons.prems show ?thesis by simp
  next
    case (Inr b)
    then show ?thesis using that by blast
  qed
  obtain q fp' d where h: "events_handle fp oc = Continue q fp' d"
  proof (cases "events_handle fp oc")
    case (Stop q)
    from events_loop_Stop[OF b Stop, of os] Cons.prems show ?thesis by simp
  next
    case (Continue q fp' d)
    then show ?thesis using that by blast
  qed
  from events_handle_Continue[OF h] have pb: "page_body oc = Some d" and fp': "fp' = False"
    by simp_all
  let ?R = "events_loop e s t v l fp' (Some d) os"
  have rq: "requests (events_loop e s t v l fp dv (oc # os)) = b # requests ?R"
    by (rule events_loop_Continue(1)[OF b h])
  show ?case
  proof (cases n)
    case 0
    with Cons.prems rq have ne: "requests ?R \<noteq> []" by auto
    from events_first_request[OF ne] have "events_body e s t v l False (Some d) = Inr (hd (requests ?R))"
      using fp' by simp
    from events_next_body_token[OF this pb] ne 0 rq show ?thesis
      by (simp add: hd_conv_nth)
  next
    case (Suc m)
    with Cons.prems rq have "Suc m < length (requests ?R)" by simp
    from Cons.IH[OF this] Suc rq show ?thesis by simp
  qed
qed

lemma flow_next_request:
  "Suc n < length (requests (flow_loop E e s t l fp dv os)) \<Longrightarrow>
   n < length os \<and>
   (if fp \<and> list_all suppressed (take (Suc n) os) then
      flow_body E e s t l True None = Inr (requests (flow_loop E e s t l fp dv os) ! Suc n)
    else token_of (os ! n) \<noteq> None \<and>
      dict_get (requests (flow_loop E e s t l fp dv os) ! Suc n) ''nextPageLink'' = token_of (os ! n))"
proof (induction os arbitrary: fp dv n)
  case Nil
  then show ?case by (simp add: flow_loop.simps split: sum.splits)
next
  case (Cons oc os)
  obtain b where b: "flow_body E e s t l fp dv = Inr b"
  proof (cases "flow_body E e s t l fp dv")
    case (Inl err)
    from flow_loop_Raised[OF Inl, of "oc # os"] Cons.prems show ?thesis by simp
  next
    case (Inr b)
    then show ?thesis using that by blast
  qed
  obtain q fp' d where h: "flow_handle fp oc = Continue q fp' d"
  proof (cases "flow_handle fp oc")
    case (Stop q)
    from flow_loop_Stop[OF b Stop, of os] Cons.prems show ?thesis by simp
  next
    case (Continue q fp' d)
    then show ?thesis using that by blast
  qed
  from flow_handle_Continue[OF h] have pb: "page_body oc = Some d"
    and fp': "fp' = (fp \<and> suppressed oc)"
    by (auto simp: suppressed_def split: if_splits)
  let ?R = "flow_loop E e s t l fp' (Some d) os"
  have rq: "requests (flow_loop E e s t l fp dv (oc # os)) = b # requests ?R"
    by (rule flow_loop_Continue(1)[OF b h])
  show ?case
  proof (cases n)
    case 0
    with Cons.prems rq have ne: "requests ?R \<noteq> []" by auto
    from flow_first_request[OF ne] have fb: "flow_body E e s t l fp' (Some d) = Inr (hd (requests ?R))" .
    have idx: "requests (flow_loop E e s t l fp dv (oc # os)) ! Suc 0 = hd (requests ?R)"
      using rq ne by (simp add: hd_conv_nth)
    have cond: "(fp \<and> list_all suppressed (take (Suc 0) (oc # os))) = fp'"
      using fp' by simp
    show ?thesis
    proof (cases fp')
      case True
      with fb have "flow_body E e s t l True None = Inr (hd (requests ?R))"
        by (simp add: flow_body_def)
      then show ?thesis unfolding 0 cond idx using True by simp
    next
      case False
      with fb have "flow_body E e s t l False (Some d) = Inr (hd (requests ?R))" by simp
      from flow_next_body_token[OF this pb] show ?thesis
        unfolding 0 cond idx using False by simp
    qed
  next
    case (Suc m)
    with Cons.prems rq have lt: "Suc m < length (requests ?R)" by simp
    have idx: "requests (flow_loop E e s t l fp dv (oc # os)) ! Suc (Suc m) = requests ?R ! Suc m"
      using rq by simp
    have cond: "(fp \<and> list_all suppressed (take (Suc (Suc m)) (oc # os))) =
                (fp' \<and> list_all suppressed (take (Suc m) os))"
      using fp' by auto
    have nth: "(oc # os) ! Suc m = os ! m" by simp
    from Cons.IH[OF lt] show ?thesis
      unfolding Suc cond idx nth by simp
  qed
qed

text \<open>
  Claim C5. In the events worker every request after the first carries, as its
  \<^verbatim>\<open>nextPageLink\<close>, the \<^verbatim>\<open>nextPageLink\<close> of the response just before it, unchanged. In the
  flow-metrics worker the same holds for every request made after some page was put on
  the queue; while all pages so far were lone summary elements, the next request is the
  first-page body again, which has no \<^verbatim>\<open>nextPageLink\<close>, although the response before it
  may carry a token.
\<close>

theorem next_request_token:
  "(Suc n < length (requests (events_fetch_data_worker e' s' t' v l' script)) \<longrightarrow>
      n < length script \<and> token_of (script ! n) \<noteq> None \<and>
      dict_get (requests (events_fetch_data_worker e' s' t' v l' script) ! Suc n) ''nextPageLink'' =
        token_of (script ! n)) \<and>
   (Suc n < length (requests (flow_fetch_data_worker E e s t l script)) \<longrightarrow>
      n < length script \<and>
      (if list_all suppressed (take (Suc n) script) then
         flow_body E e s t l True None =
           Inr (requests (flow_fetch_data_worker E e s t l script) ! Suc n)
       else token_of (script ! n) \<noteq> None \<and>
         dict_get (requests (flow_fetch_data_worker E e s t l script) ! Suc n) ''nextPageLink'' =
           token_of (script ! n)))"
  unfolding flow_fetch_data_worker_def events_fetch_data_worker_def
  using events_next_request[of n e' s' t' v l' True None script]
        flow_next_request[of n E e s t l True None script]
  by simp

theorem next_request_token_witness:
  "dict_get (requests (events_fetch_data_worker 2 0 1 ''past12Months'' 3
     [Response 200 (Some (Body (Some [[(''id'', JNum 1)], [(''id'', JNum 2)]])
        (Some (Meta (Some (JBool True)) (Some (JStr ''T1'')))))),
      Response 200 (Some (Body (Some [[(''id'', JNum 3)]])
        (Some (Meta (Some (JBool False)) None))))]) ! Suc 0) ''nextPageLink'' = Some (JStr ''T1'') \<and>
   dict_get (requests (flow_fetch_data_worker 1 2 ''a'' ''b'' 3
     [Response 200 (Some (Body (Some [[(''id'', JNum 1)], [(''id'', JNum 2)]])
        (Some (Meta (Some (JBool True)) (Some (JStr ''T1'')))))),
      Response 200 (Some (Body (Some [[(''id'', JNum 3)]])
        (Some (Meta (Some (JBool False)) None))))]) ! Suc 0) ''nextPageLink'' = Some (JStr ''T1'')"
proof -
  let ?S = "[Response 200 (Some (Body (Some [[(''id'', JNum 1)], [(''id'', JNum 2)]])
        (Some (Meta (Some (JBool True)) (Some (JStr ''T1'')))))),
      Response 200 (Some (Body (Some [[(''id'', JNum 3)]])
        (Some (Meta (Some (JBool False)) None))))]"
  have a: "Suc 0 < length (requests (events_fetch_data_worker 2 0 1 ''past12Months'' 3 ?S))"
    by (simp add: eval_defs)
  have b: "Suc 0 < length (requests (flow_fetch_data_worker 1 2 ''a'' ''b'' 3 ?S))"
    by (simp add: eval_defs)
  have c: "\<not> list_all suppressed (take (Suc 0) ?S)"
    by (simp add: suppressed_def page_body_def page_items_def only_other_def is_other_def dict_get_def)
  have d: "token_of (?S ! 0) = Some (JStr ''T1'')"
    by (simp add: token_of_def page_body_def)
  from next_request_token[of 0 2 0 1 "''past12Months''" 3 ?S 1 2 "''a''" "''b''" 3] a b c d
  show ?thesis by simp
qed

theorem next_request_token_counterexample:
  "length (requests (flow_fetch_data_worker 1 2 ''a'' ''b'' 3
     [Response 200 (Some (Body (Some [[(''name'', JStr ''other'')]])
        (Some (Meta (Some (JBool True)) (Some (JStr ''T1'')))))),
      Response 200 (Some (Body (Some [[(''id'', JNum 4)]])
        (Some (Meta (Some (JBool False)) None))))])) = 2 \<and>
   token_of (Response 200 (Some (Body (Some [[(''name'', JStr ''other'')]])
        (Some (Meta (Some (JBool True)) (Some (JStr ''T1''))))))) = Some (JStr ''T1'') \<and>
   dict_get (requests (flow_fetch_data_worker 1 2 ''a'' ''b'' 3
     [Response 200 (Some (Body (Some [[(''name'', JStr ''other'')]])
        (Some (Meta (Some (JBool True)) (Some (JStr ''T1'')))))),
      Response 200 (Some (Body (Some [[(''id'', JNum 4)]])
        (Some (Meta (Some (JBool False)) None))))]) ! 1) ''nextPageLink'' = None"
  by (simp add: eval_defs)

section \<open>The fields of the request bodies\<close>

lemma flow_request_body:
  "Suc n < length (requests (flow_loop E e s t l fp dv os)) \<Longrightarrow>
   n < length os \<and>
   (\<exists>d. page_body (os ! n) = Some d \<and>
        flow_body E e s t l (fp \<and> list_all suppressed (take (Suc n) os)) (Some d) =
          Inr (requests (flow_loop E e s t l fp dv os) ! Suc n))"
proof (induction os arbitrary: fp dv n)
  case Nil
  then show ?case by (simp add: flow_loop.simps split: sum.splits)
next
  case (Cons oc os)
  obtain b where b: "flow_body E e s t l fp dv = Inr b"
  proof (cases "flow_body E e s t l fp dv")
    case (Inl err)
    from flow_loop_Raised[OF Inl, of "oc # os"] Cons.prems show ?thesis by simp
  next
    case (Inr b)
    then show ?thesis using that by blast
  qed
  obtain q fp' d where h: "flow_handle fp oc = Continue q fp' d"
  proof (cases "flow_handle fp oc")
    case (Stop q)
    from flow_loop_Stop[OF b Stop, of os] Cons.prems show ?thesis by simp
  next
    case (Continue q fp' d)
    then show ?thesis using that by blast
  qed
  from flow_handle_Continue[OF h] have pb: "page_body oc = Some d"
    and fp': "fp' = (fp \<and> suppressed oc)"
    by (auto simp: suppressed_def split: if_splits)
  let ?R = "flow_loop E e s t l fp' (Some d) os"
  have rq: "requests (flow_loop E e s t l fp dv (oc # os)) = b # requests ?R"
    by (rule flow_loop_Continue(1)[OF b h])
  show ?case
  proof (cases n)
    case 0
    with Cons.prems rq have ne: "requests ?R \<noteq> []" by auto
    from flow_first_request[OF ne]
    have fb: "flow_body E e s t l fp' (Some d) = Inr (hd (requests ?R))" .
    have idx: "requests (flow_loop E e s t l fp dv (oc # os)) ! Suc 0 = hd (requests ?R)"
      using rq ne by (simp add: hd_conv_nth)
    have cond: "(fp \<and> list_all suppressed (take (Suc 0) (oc # os))) = fp'"
      using fp' by simp
    have nth: "(oc # os) ! 0 = oc" by simp
    from fb pb show ?thesis unfolding 0 cond idx nth by simp
  next
    case (Suc m)
    with Cons.prems rq have lt: "Suc m < length (requests ?R)" by simp
    have idx: "requests (flow_loop E e s t l fp dv (oc # os)) ! Suc (Suc m) = requests ?R ! Suc m"
      using rq by simp
    have cond: "(fp \<and> list_all suppressed (take (Suc (Suc m)) (oc # os))) =
                (fp' \<and> list_all suppressed (take (Suc m) os))"
      using fp' by auto
    have nth: "(oc # os) ! Suc m = os ! m" by simp
    from Cons.IH[OF lt] show ?thesis
      unfolding Suc cond idx nth by simp
  qed
qed

lemma events_request_body:
  "Suc n < length (requests (events_loop e s t v l fp dv os)) \<Longrightarrow>
   n < length os \<and>
   (\<exists>d. page_body (os ! n) = Some d \<and>
        events_body e s t v l False (Some d) =
          Inr (requests (events_loop e s t v l fp dv os) ! Suc n))"
proof (induction os arbitrary: fp dv n)
  case Nil
  then show ?case by (simp add: events_loop.simps split: sum.splits)
next
  case (Cons oc os)
  obtain b where b: "events_body e s t v l fp dv = Inr b"
  proof (cases "events_body e s t v l fp dv")
    case (Inl err)
    from events_loop_Raised[OF Inl, of "oc # os"] Cons.prems show ?thesis by simp
  next
    case (Inr b)
    then show ?thesis using that by blast
  qed
  obtain q fp' d where h: "events_handle fp oc = Continue q fp' d"
  proof (cases "events_handle fp oc")
    case (Stop q)
    from events_loop_Stop[OF b Stop, of os] Cons.prems show ?thesis by simp
  next
    case (Continue q fp' d)
    then show ?thesis using that by blast
  qed
  from events_handle_Continue[OF h] have pb: "page_body oc = Some d" and fp': "fp' = False"
    by simp_all
  let ?R = "events_loop e s t v l fp' (Some d) os"
  have rq: "requests (events_loop e s t v l fp dv (oc # os)) = b # requests ?R"
    by (rule events_loop_Continue(1)[OF b h])
  show ?case
  proof (cases n)
    case 0
    with Cons.prems rq have ne: "requests ?R \<noteq> []" by auto
    from events_first_request[OF ne]
    have fb: "events_body e s t v l False (Some d) = Inr (hd (requests ?R))"
      using fp' by simp
    have idx: "requests (events_loop e s t v l fp dv (oc # os)) ! Suc 0 = hd (requests ?R)"
      using rq ne by (simp add: hd_conv_nth)
    have nth: "(oc # os) ! 0 = oc" by simp
    from fb pb show ?thesis unfolding 0 idx nth by simp
  next
    case (Suc m)
    with Cons.prems rq have lt: "Suc m < length (requests ?R)" by simp
    have idx: "requests (events_loop e s t v l fp dv (oc # os)) ! Suc (Suc m) = requests ?R ! Suc m"
      using rq by simp
    have nth: "(oc # os) ! Suc m = os ! m" by simp
    from Cons.IH[OF lt] show ?thesis
      unfolding Suc idx nth by simp
  qed
qed

lemma flow_next_body_shape:
  "flow_body E e s t l False (Some d) = Inr b \<Longrightarrow> page_body oc = Some d \<Longrightarrow>
   token_of oc \<noteq> None \<and>
   b = [(''edgeId'', JNum E),
        (''interval'', JObj [(''start'', JStr s), (''end'', JStr t)]),
        (''nextPageLink'', the (token_of oc))]"
  by (auto simp: flow_body_def next_page_link_def token_of_def
           split: option.splits sum.splits)

lemma events_next_body_shape:
  "events_body e s t v l False (Some d) = Inr b \<Longrightarrow> page_body oc = Some d \<Longrightarrow>
   token_of oc \<noteq> None \<and>
   b = [(''nextPageLink'', the (token_of oc)),
        (''limit'', JNum l),
        (''interval'', JObj [(''start'', JNum s), (''end'', JNum t), (''type'', JStr v)]),
        (''enterpriseId'', JNum e)]"
  by (auto simp: events_body_def next_page_link_def token_of_def
           split: option.splits sum.splits)

lemma flow_requests_hd:
  "flow_body E e s t l fp dv = Inr b \<Longrightarrow>
   requests (flow_loop E e s t l fp dv os) \<noteq> [] \<and> hd (requests (flow_loop E e s t l fp dv os)) = b"
proof (cases os)
  case Nil
  assume "flow_body E e s t l fp dv = Inr b"
  with Nil show ?thesis by (simp add: flow_loop.simps)
next
  case (Cons oc rest)
  assume b: "flow_body E e s t l fp dv = Inr b"
  show ?thesis
  proof (cases "flow_handle fp oc")
    case (Stop q)
    from flow_loop_Stop[OF b Stop, of rest] Cons show ?thesis by simp
  next
    case (Continue q fp' d)
    from flow_loop_Continue(1)[OF b Continue, of rest] Cons show ?thesis by simp
  qed
qed

lemma events_requests_hd:
  "events_body e s t v l fp dv = Inr b \<Longrightarrow>
   requests (events_loop e s t v l fp dv os) \<noteq> [] \<and>
   hd (requests (events_loop e s t v l fp dv os)) = b"
proof (cases os)
  case Nil
  assume "events_body e s t v l fp dv = Inr b"
  with Nil show ?thesis by (simp add: events_loop.simps)
next
  case (Cons oc rest)
  assume b: "events_body e s t v l fp dv = Inr b"
  show ?thesis
  proof (cases "events_handle fp oc")
    case (Stop q)
    from events_loop_Stop[OF b Stop, of rest] Cons show ?thesis by simp
  next
    case (Continue q fp' d)
    from events_loop_Continue(1)[OF b Continue, of rest] Cons show ?thesis by simp
  qed
qed

text \<open>
  Claim C7. The request bodies of a run, field by field. The first request is the
  first-page body: \<^verbatim>\<open>edgeId, enterpriseId, interval{start, end}, limit, _filterSpec\<close> in
  the flow-metrics worker and \<^verbatim>\<open>filter{limit}, interval{start, end, type}, enterpriseId\<close>
  in the events worker. Every later request of the events worker is exactly
  \<^verbatim>\<open>nextPageLink, limit, interval{start, end, type}, enterpriseId\<close> with the token of the
  response before it. Every later request of the flow-metrics worker is exactly
  \<^verbatim>\<open>edgeId, interval{start, end}, nextPageLink\<close> with that token, once some page was not a
  lone summary element; while all pages so far were, it is the first-page body again. So
  the later bodies do not mirror the first-page bodies: the flow-metrics worker drops
  \<^verbatim>\<open>enterpriseId\<close> and \<^verbatim>\<open>limit\<close>, and the events worker moves the limit out of
  \<^verbatim>\<open>filter\<close>.
\<close>

theorem request_bodies_of_run:
  "requests (flow_fetch_data_worker E e s t l script) \<noteq> [] \<and>
   hd (requests (flow_fetch_data_worker E e s t l script)) =
     [(''edgeId'', JNum E), (''enterpriseId'', JNum e),
      (''interval'', JObj [(''start'', JStr s), (''end'', JStr t)]),
      (''limit'', JNum l), (''_filterSpec'', JBool False)] \<and>
   requests (events_fetch_data_worker e' s' t' v l' script) \<noteq> [] \<and>
   hd (requests (events_fetch_data_worker e' s' t' v l' script)) =
     [(''filter'', JObj [(''limit'', JNum l')]),
      (''interval'', JObj [(''start'', JNum s'), (''end'', JNum t'), (''type'', JStr v)]),
      (''enterpriseId'', JNum e')] \<and>
   (Suc n < length (requests (flow_fetch_data_worker E e s t l script)) \<longrightarrow>
      n < length script \<and>
      (if list_all suppressed (take (Suc n) script) then
         requests (flow_fetch_data_worker E e s t l script) ! Suc n =
           [(''edgeId'', JNum E), (''enterpriseId'', JNum e),
            (''interval'', JObj [(''start'', JStr s), (''end'', JStr t)]),
            (''limit'', JNum l), (''_filterSpec'', JBool False)]
       else
         token_of (script ! n) \<noteq> None \<and>
         requests (flow_fetch_data_worker E e s t l script) ! Suc n =
           [(''edgeId'', JNum E),
            (''interval'', JObj [(''start'', JStr s), (''end'', JStr t)]),
            (''nextPageLink'', the (token_of (script ! n)))])) \<and>
   (Suc n < length (requests (events_fetch_data_worker e' s' t' v l' script)) \<longrightarrow>
      n < length script \<and> token_of (script ! n) \<noteq> None \<and>
      requests (events_fetch_data_worker e' s' t' v l' script) ! Suc n =
        [(''nextPageLink'', the (token_of (script ! n))),
         (''limit'', JNum l'),
         (''interval'', JObj [(''start'', JNum s'), (''end'', JNum t'), (''type'', JStr v)]),
         (''enterpriseId'', JNum e')])"
proof (intro conjI impI)
  show "requests (flow_fetch_data_worker E e s t l script) \<noteq> []"
    and "hd (requests (flow_fetch_data_worker E e s t l script)) =
     [(''edgeId'', JNum E), (''enterpriseId'', JNum e),
      (''interval'', JObj [(''start'', JStr s), (''end'', JStr t)]),
      (''limit'', JNum l), (''_filterSpec'', JBool False)]"
    unfolding flow_fetch_data_worker_def
    using flow_requests_hd[OF flow_first_body, of E e s t l None script] by simp_all
  show "requests (events_fetch_data_worker e' s' t' v l' script) \<noteq> []"
    and "hd (requests (events_fetch_data_worker e' s' t' v l' script)) =
     [(''filter'', JObj [(''limit'', JNum l')]),
      (''interval'', JObj [(''start'', JNum s'), (''end'', JNum t'), (''type'', JStr v)]),
      (''enterpriseId'', JNum e')]"
    unfolding events_fetch_data_worker_def
    using events_requests_hd[OF events_first_body, of e' s' t' v l' None script] by simp_all
next
  assume a: "Suc n < length (requests (flow_fetch_data_worker E e s t l script))"
  from flow_request_body[of n E e s t l True None script] a
  obtain d where n: "n < length script" and pb: "page_body (script ! n) = Some d"
    and fb: "flow_body E e s t l (list_all suppressed (take (Suc n) script)) (Some d) =
          Inr (requests (flow_fetch_data_worker E e s t l script) ! Suc n)"
    unfolding flow_fetch_data_worker_def by auto
  show "n < length script" by (rule n)
  show "if list_all suppressed (take (Suc n) script) then
         requests (flow_fetch_data_worker E e s t l script) ! Suc n =
           [(''edgeId'', JNum E), (''enterpriseId'', JNum e),
            (''interval'', JObj [(''start'', JStr s), (''end'', JStr t)]),
            (''limit'', JNum l), (''_filterSpec'', JBool False)]
       else
         token_of (script ! n) \<noteq> None \<and>
         requests (flow_fetch_data_worker E e s t l script) ! Suc n =
           [(''edgeId'', JNum E),
            (''interval'', JObj [(''start'', JStr s), (''end'', JStr t)]),
            (''nextPageLink'', the (token_of (script ! n)))]"
  proof (cases "list_all suppressed (take (Suc n) script)")
    case True
    with fb flow_first_body[of E e s t l "Some d"] show ?thesis by simp
  next
    case False
    with fb have "flow_body E e s t l False (Some d) =
          Inr (requests (flow_fetch_data_worker E e s t l script) ! Suc n)" by simp
    from flow_next_body_shape[OF this pb] False show ?thesis by simp
  qed
next
  assume a: "Suc n < length (requests (events_fetch_data_worker e' s' t' v l' script))"
  from events_request_body[of n e' s' t' v l' True None script] a
  obtain d where n: "n < length script" and pb: "page_body (script ! n) = Some d"
    and fb: "events_body e' s' t' v l' False (Some d) =
          Inr (requests (events_fetch_data_worker e' s' t' v l' script) ! Suc n)"
    unfolding events_fetch_data_worker_def by auto
  show "n < length script" by (rule n)
  from events_next_body_shape[OF fb pb]
  show "token_of (script ! n) \<noteq> None"
    and "requests (events_fetch_data_worker e' s' t' v l' script) ! Suc n =
        [(''nextPageLink'', the (token_of (script ! n))),
         (''limit'', JNum l'),
         (''interval'', JObj [(''start'', JNum s'), (''end'', JNum t'), (''type'', JStr v)]),
         (''enterpriseId'', JNum e')]"
    by simp_all
qed

theorem request_bodies_of_run_witness:
  "requests (flow_fetch_data_worker 1 2 ''a'' ''b'' 3
     [Response 200 (Some (Body (Some [[(''name'', JStr ''other'')]])
        (Some (Meta (Some (JBool True)) (Some (JStr ''T0'')))))),
      Response 200 (Some (Body (Some [[(''id'', JNum 1)]])
        (Some (Meta (Some (JBool True)) (Some (JStr ''T1'')))))),
      Response 200 (Some (Body (Some [[(''id'', JNum 3)]])
        (Some (Meta (Some (JBool False)) None))))]) ! Suc 0 =
     [(''edgeId'', JNum 1), (''enterpriseId'', JNum 2),
      (''interval'', JObj [(''start'', JStr ''a''), (''end'', JStr ''b'')]),
      (''limit'', JNum 3), (''_filterSpec'', JBool False)] \<and>
   requests (flow_fetch_data_worker 1 2 ''a'' ''b'' 3
     [Response 200 (Some (Body (Some [[(''name'', JStr ''other'')]])
        (Some (Meta (Some (JBool True)) (Some (JStr ''T0'')))))),
      Response 200 (Some (Body (Some [[(''id'', JNum 1)]])
        (Some (Meta (Some (JBool True)) (Some (JStr ''T1'')))))),
      Response 200 (Some (Body (Some [[(''id'', JNum 3)]])
        (Some (Meta (Some (JBool False)) None))))]) ! Suc (Suc 0) =
     [(''edgeId'', JNum 1),
      (''interval'', JObj [(''start'', JStr ''a''), (''end'', JStr ''b'')]),
      (''nextPageLink'', JStr ''T1'')] \<and>
   requests (events_fetch_data_worker 2 0 1 ''past12Months'' 3
     [Response 200 (Some (Body (Some [[(''name'', JStr ''other'')]])
        (Some (Meta (Some (JBool True)) (Some (JStr ''T0'')))))),
      Response 200 (Some (Body (Some [[(''id'', JNum 1)]])
        (Some (Meta (Some (JBool True)) (Some (JStr ''T1'')))))),
      Response 200 (Some (Body (Some [[(''id'', JNum 3)]])
        (Some (Meta (Some (JBool False)) None))))]) ! Suc (Suc 0) =
     [(''nextPageLink'', JStr ''T1''), (''limit'', JNum 3),
      (''interval'',
         JObj [(''start'', JNum 0), (''end'', JNum 1), (''type'', JStr ''past12Months'')]),
      (''enterpriseId'', JNum 2)]"
proof -
  let ?S = "[Response 200 (Some (Body (Some [[(''name'', JStr ''other'')]])
        (Some (Meta (Some (JBool True)) (Some (JStr ''T0'')))))),
      Response 200 (Some (Body (Some [[(''id'', JNum 1)]])
        (Some (Meta (Some (JBool True)) (Some (JStr ''T1'')))))),
      Response 200 (Some (Body (Some [[(''id'', JNum 3)]])
        (Some (Meta (Some (JBool False)) None))))]"
  have lf: "length (requests (flow_fetch_data_worker 1 2 ''a'' ''b'' 3 ?S)) = 3"
    by (simp add: eval_defs)
  have le: "length (requests (events_fetch_data_worker 2 0 1 ''past12Months'' 3 ?S)) = 3"
    by (simp add: eval_defs)
  have s0: "list_all suppressed (take (Suc 0) ?S)"
    by (simp add: suppressed_def page_body_def page_items_def only_other_def is_other_def dict_get_def)
  have s1: "\<not> list_all suppressed (take (Suc (Suc 0)) ?S)"
    by (simp add: suppressed_def page_body_def page_items_def only_other_def is_other_def dict_get_def)
  have t1: "token_of (?S ! Suc 0) = Some (JStr ''T1'')"
    by (simp add: token_of_def page_body_def)
  from request_bodies_of_run[of 1 2 "''a''" "''b''" 3 ?S 2 0 1 "''past12Months''" 3 0] lf s0
  have a: "requests (flow_fetch_data_worker 1 2 ''a'' ''b'' 3 ?S) ! Suc 0 =
     [(''edgeId'', JNum 1), (''enterpriseId'', JNum 2),
      (''interval'', JObj [(''start'', JStr ''a''), (''end'', JStr ''b'')]),
      (''limit'', JNum 3), (''_filterSpec'', JBool False)]"
    by simp
  from request_bodies_of_run[of 1 2 "''a''" "''b''" 3 ?S 2 0 1 "''past12Months''" 3 "Suc 0"] lf le s1 t1
  have b: "requests (flow_fetch_data_worker 1 2 ''a'' ''b'' 3 ?S) ! Suc (Suc 0) =
     [(''edgeId'', JNum 1),
      (''interval'', JObj [(''start'', JStr ''a''), (''end'', JStr ''b'')]),
      (''nextPageLink'', JStr ''T1'')]"
   and c: "requests (events_fetch_data_worker 2 0 1 ''past12Months'' 3 ?S) ! Suc (Suc 0) =
     [(''nextPageLink'', JStr ''T1''), (''limit'', JNum 3),
      (''interval'',
         JObj [(''start'', JNum 0), (''end'', JNum 1), (''type'', JStr ''past12Months'')]),
      (''enterpriseId'', JNum 2)]"
    by simp_all
  from a b c show ?thesis by blast
qed

theorem request_bodies_of_run_counterexample:
  "''enterpriseId'' \<in> set (keys (requests (flow_fetch_data_worker 1 2 ''a'' ''b'' 3
     [Response 200 (Some (Body (Some [[(''id'', JNum 1)]])
        (Some (Meta (Some (JBool True)) (Some (JStr ''T1'')))))),
      Response 200 (Some (Body (Some [[(''id'', JNum 2)]]) None))]) ! 0)) \<and>
   ''enterpriseId'' \<notin> set (keys (requests (flow_fetch_data_worker 1 2 ''a'' ''b'' 3
     [Response 200 (Some (Body (Some [[(''id'', JNum 1)]])
        (Some (Meta (Some (JBool True)) (Some (JStr ''T1'')))))),
      Response 200 (Some (Body (Some [[(''id'', JNum 2)]]) None))]) ! 1)) \<and>
   ''limit'' \<in> set (keys (requests (flow_fetch_data_worker 1 2 ''a'' ''b'' 3
     [Response 200 (Some (Body (Some [[(''id'', JNum 1)]])
        (Some (Meta (Some (JBool True)) (Some (JStr ''T1'')))))),
      Response 200 (Some (Body (Some [[(''id'', JNum 2)]]) None))]) ! 0)) \<and>
   ''limit'' \<notin> set (keys (requests (flow_fetch_data_worker 1 2 ''a'' ''b'' 3
     [Response 200 (Some (Body (Some [[(''id'', JNum 1)]])
        (Some (Meta (Some (JBool True)) (Some (JStr ''T1'')))))),
      Response 200 (Some (Body (Some [[(''id'', JNum 2)]]) None))]) ! 1))"
  by (simp add: eval_defs)

section \<open>The write loops\<close>

lemma str_join_Cons: "str_join sep (x # xs) = x @ concat (map (\<lambda>y. sep @ y) xs)"
  by (induction xs arbitrary: x) simp_all

lemma str_join_append:
  "xs \<noteq> [] \<Longrightarrow> str_join sep (xs @ ys) = str_join sep xs @ concat (map (\<lambda>y. sep @ y) ys)"
  by (cases xs) (simp_all add: str_join_Cons)

lemma items_text_append:
  "items_text dl fe (xs @ ys) = items_text dl fe xs @ items_text dl (fe \<and> xs = []) ys"
  by (cases "xs = []") (auto simp: items_text_def str_join_append comp_def)

lemma items_text_Cons:
  "items_text dl fe (x # xs) =
     (if fe then [] else '',\<newline>'') @ write_json_with_indent dl x 4 @ items_text dl False xs"
  by (simp add: items_text_def str_join_Cons comp_def)

lemma file_text_append: "file_text dl (xs @ ys) = file_text dl xs @ file_text dl ys"
  by (simp add: file_text_def)

lemma elements_append: "elements (xs @ ys) = elements xs @ elements ys"
  by (induction xs rule: elements.induct) simp_all

lemma flow_write_chunk_result:
  "fst (flow_write_chunk fe out items) = (fe \<and> kept items = []) \<and>
   file_text dl (snd (flow_write_chunk fe out items)) =
     file_text dl out @ items_text dl fe (kept items) \<and>
   elements (snd (flow_write_chunk fe out items)) = elements out @ kept items"
proof (induction items arbitrary: fe out)
  case Nil
  show ?case by (simp add: kept_def items_text_def)
next
  case (Cons item items)
  show ?case
  proof (cases "is_other item")
    case True
    then have "kept (item # items) = kept items" by (simp add: kept_def)
    with True Cons.IH[of fe out] show ?thesis by simp
  next
    case False
    then have k: "kept (item # items) = item # kept items" by (simp add: kept_def)
    show ?thesis
    proof (cases fe)
      case True
      with False Cons.IH[of False "out @ [Element item]"] show ?thesis
        by (simp add: k items_text_Cons file_text_append elements_append file_text_def)
    next
      case fe: False
      with False Cons.IH[of False "out @ [Raw '',\<newline>'', Element item]"] show ?thesis
        by (simp add: k items_text_Cons file_text_append elements_append file_text_def)
    qed
  qed
qed

lemma events_write_chunk_result:
  "fst (events_write_chunk fe out items) = (fe \<and> items = []) \<and>
   file_text dl (snd (events_write_chunk fe out items)) =
     file_text dl out @ items_text dl fe items \<and>
   elements (snd (events_write_chunk fe out items)) = elements out @ items"
proof (induction items arbitrary: fe out)
  case Nil
  show ?case by (simp add: items_text_def)
next
  case (Cons item items)
  show ?case
  proof (cases fe)
    case True
    with Cons.IH[of False "out @ [Element item]"] show ?thesis
      by (simp add: items_text_Cons file_text_append elements_append file_text_def)
  next
    case False
    with Cons.IH[of False "out @ [Raw '',\<newline>'', Element item]"] show ?thesis
      by (simp add: items_text_Cons file_text_append elements_append file_text_def)
  qed
qed

lemma kept_append: "kept (xs @ ys) = kept xs @ kept ys"
  by (simp add: kept_def)

lemma flow_write_loop_result:
  "ended (flow_write_loop fe out (map Some bs @ None # rest)) \<and>
   file_text dl (output_file (flow_write_loop fe out (map Some bs @ None # rest))) =
     file_text dl out @ items_text dl fe (kept (concat bs)) @ ''\<newline>]'' \<and>
   elements (output_file (flow_write_loop fe out (map Some bs @ None # rest))) =
     elements out @ kept (concat bs)"
proof (induction bs arbitrary: fe out)
  case Nil
  show ?case by (simp add: kept_def items_text_def file_text_append elements_append file_text_def)
next
  case (Cons b bs)
  obtain fe' out' where c: "flow_write_chunk fe out b = (fe', out')"
    by (cases "flow_write_chunk fe out b")
  from flow_write_chunk_result[of fe out b dl] c
  have r: "fe' = (fe \<and> kept b = [])"
          "file_text dl out' = file_text dl out @ items_text dl fe (kept b)"
          "elements out' = elements out @ kept b"
    by simp_all
  from Cons.IH[of fe' out'] c r show ?case
    by (simp add: kept_append items_text_append)
qed

lemma events_write_loop_result:
  "ended (events_write_loop fe out (map Some bs @ None # rest)) \<and>
   file_text dl (output_file (events_write_loop fe out (map Some bs @ None # rest))) =
     file_text dl out @ items_text dl fe (concat bs) @ ''\<newline>]'' \<and>
   elements (output_file (events_write_loop fe out (map Some bs @ None # rest))) =
     elements out @ concat bs"
proof (induction bs arbitrary: fe out)
  case Nil
  show ?case by (simp add: items_text_def file_text_append elements_append file_text_def)
next
  case (Cons b bs)
  obtain fe' out' where c: "events_write_chunk fe out b = (fe', out')"
    by (cases "events_write_chunk fe out b")
  from events_write_chunk_result[of fe out b dl] c
  have r: "fe' = (fe \<and> b = [])"
          "file_text dl out' = file_text dl out @ items_text dl fe b"
          "elements out' = elements out @ b"
    by simp_all
  from Cons.IH[of fe' out'] c r show ?case
    by (simp add: items_text_append)
qed

lemma flow_write_loop_ended: "ended (flow_write_loop fe out msgs) = (None \<in> set msgs)"
proof (induction msgs arbitrary: fe out)
  case Nil
  show ?case by simp
next
  case (Cons m msgs)
  show ?case
  proof (cases m)
    case None
    then show ?thesis by simp
  next
    case (Some b)
    obtain fe' out' where c: "flow_write_chunk fe out b = (fe', out')"
      by (cases "flow_write_chunk fe out b")
    with Some Cons.IH[of fe' out'] show ?thesis by simp
  qed
qed

lemma events_write_loop_ended: "ended (events_write_loop fe out msgs) = (None \<in> set msgs)"
proof (induction msgs arbitrary: fe out)
  case Nil
  show ?case by simp
next
  case (Cons m msgs)
  show ?case
  proof (cases m)
    case None
    then show ?thesis by simp
  next
    case (Some b)
    obtain fe' out' where c: "events_write_chunk fe out b = (fe', out')"
      by (cases "events_write_chunk fe out b")
    with Some Cons.IH[of fe' out'] show ?thesis by simp
  qed
qed

lemma flow_write_loop_skip_empty:
  "flow_write_loop fe out (pre @ Some [] # msgs) = flow_write_loop fe out (pre @ msgs)"
proof (induction pre arbitrary: fe out)
  case Nil
  show ?case by simp
next
  case (Cons m pre)
  show ?case
  proof (cases m)
    case None
    then show ?thesis by simp
  next
    case (Some b)
    obtain fe' out' where c: "flow_write_chunk fe out b = (fe', out')"
      by (cases "flow_write_chunk fe out b")
    with Some Cons.IH[of fe' out'] show ?thesis by simp
  qed
qed

lemma events_write_loop_skip_empty:
  "events_write_loop fe out (pre @ Some [] # msgs) = events_write_loop fe out (pre @ msgs)"
proof (induction pre arbitrary: fe out)
  case Nil
  show ?case by simp
next
  case (Cons m pre)
  show ?case
  proof (cases m)
    case None
    then show ?thesis by simp
  next
    case (Some b)
    obtain fe' out' where c: "events_write_chunk fe out b = (fe', out')"
      by (cases "events_write_chunk fe out b")
    with Some Cons.IH[of fe' out'] show ?thesis by simp
  qed
qed






text \<open>
  Claim C10. An empty batch is not the sentinel: either write loop, handed an empty list,
  writes nothing, keeps \<^verbatim>\<open>FirstElement\<close> and the file as they are and goes on with the
  next message, so that an empty batch anywhere among the messages changes nothing of the
  outcome; if no message follows it the loop is still waiting. The loop ends exactly when
  \<^verbatim>\<open>None\<close> is among the messages, with the closing bracket.
\<close>

theorem empty_batch_is_not_the_end:
  "flow_write_loop FirstElement out (Some [] # msgs) = flow_write_loop FirstElement out msgs \<and>
   events_write_loop FirstElement out (Some [] # msgs) = events_write_loop FirstElement out msgs \<and>
   flow_write_chunk FirstElement out [] = (FirstElement, out) \<and>
   events_write_chunk FirstElement out [] = (FirstElement, out) \<and>
   flow_write_loop FirstElement out (None # msgs) = Written (out @ [Raw ''\<newline>]'']) True \<and>
   events_write_loop FirstElement out (None # msgs) = Written (out @ [Raw ''\<newline>]'']) True \<and>
   ended (flow_write_loop FirstElement out [Some []]) = False \<and>
   ended (events_write_loop FirstElement out [Some []]) = False \<and>
   ended (flow_write_loop FirstElement out msgs) = (None \<in> set msgs) \<and>
   ended (events_write_loop FirstElement out msgs) = (None \<in> set msgs) \<and>
   flow_write_loop FirstElement out (pre @ Some [] # msgs) =
     flow_write_loop FirstElement out (pre @ msgs) \<and>
   events_write_loop FirstElement out (pre @ Some [] # msgs) =
     events_write_loop FirstElement out (pre @ msgs)"
  using flow_write_loop_ended[of FirstElement out msgs]
        events_write_loop_ended[of FirstElement out msgs]
        flow_write_loop_skip_empty[of FirstElement out pre msgs]
        events_write_loop_skip_empty[of FirstElement out pre msgs]
  by simp

section \<open>The items of a whole run\<close>

lemma only_other_kept: "only_other b \<Longrightarrow> kept b = []"
  by (cases b) (auto simp: only_other_def kept_def)

lemma kept_concat_filter:
  "kept (concat (filter (\<lambda>b. \<not> only_other b) bss)) = kept (concat bss)"
  by (induction bss) (simp_all add: kept_append only_other_kept)

lemma flow_valid_pages_queue:
  "valid_pages script \<Longrightarrow> body_ok fp dv \<Longrightarrow>
   queue (flow_loop E e s t l fp dv script) =
     map Some (filter (\<lambda>b. \<not> only_other b) (map page_items script)) @ [None]"
proof (induction script arbitrary: fp dv rule: valid_pages.induct)
  case 1
  then show ?case by simp
next
  case (2 oc)
  from flow_body_ok[OF "2.prems"(2)] obtain b where b: "flow_body E e s t l fp dv = Inr b"
    by blast
  from "2.prems"(1) obtain d where d: "page_body oc = Some d" "no_more d"
    by (auto simp: terminal_def)
  then have h: "flow_handle fp oc =
      Stop (if only_other (page_items oc) then [None] else [Some (page_items oc), None])"
    by (simp add: flow_handle_cases)
  show ?case by (simp add: flow_loop_Stop[OF b h])
next
  case (3 oc oc' script)
  from flow_body_ok[OF "3.prems"(2)] obtain b where b: "flow_body E e s t l fp dv = Inr b"
    by blast
  from "3.prems"(1) have nt: "\<not> terminal oc" and tok: "token_ok oc"
    and v: "valid_pages (oc' # script)" by simp_all
  from flow_handle_not_terminal[OF nt, of fp] obtain d where
    d: "page_body oc = Some d" "\<not> no_more d" and
    h: "flow_handle fp oc =
         (if only_other (page_items oc) then Continue [] fp d
          else Continue [Some (page_items oc)] False d)"
    by blast
  have ok: "body_ok fp' (Some d)" for fp'
    using tok d by (auto intro: token_ok_body_ok)
  show ?case
  proof (cases "only_other (page_items oc)")
    case True
    with h have c: "flow_handle fp oc = Continue [] fp d" by simp
    from "3.IH"[OF v ok, of fp] True show ?thesis
      by (simp add: flow_loop_Continue[OF b c])
  next
    case False
    with h have c: "flow_handle fp oc = Continue [Some (page_items oc)] False d" by simp
    from "3.IH"[OF v ok, of False] False show ?thesis
      by (simp add: flow_loop_Continue[OF b c])
  qed
qed

lemma events_valid_pages_queue:
  "valid_pages script \<Longrightarrow> body_ok fp dv \<Longrightarrow>
   queue (events_loop e s t v l fp dv script) = map Some (map page_items script) @ [None]"
proof (induction script arbitrary: fp dv rule: valid_pages.induct)
  case 1
  then show ?case by simp
next
  case (2 oc)
  from events_body_ok[OF "2.prems"(2)] obtain b where b: "events_body e s t v l fp dv = Inr b"
    by blast
  from "2.prems"(1) obtain d where d: "page_body oc = Some d" "no_more d"
    by (auto simp: terminal_def)
  then have h: "events_handle fp oc = Stop [Some (page_items oc), None]"
    by (simp add: events_handle_cases)
  show ?case by (simp add: events_loop_Stop[OF b h])
next
  case (3 oc oc' script)
  from events_body_ok[OF "3.prems"(2)] obtain b where b: "events_body e s t v l fp dv = Inr b"
    by blast
  from "3.prems"(1) have nt: "\<not> terminal oc" and tok: "token_ok oc"
    and vp: "valid_pages (oc' # script)" by simp_all
  from events_handle_not_terminal[OF nt, of fp] obtain d where
    d: "page_body oc = Some d" "\<not> no_more d" and
    h: "events_handle fp oc = Continue [Some (page_items oc)] False d"
    by blast
  have ok: "body_ok False (Some d)"
    using tok d by (auto intro: token_ok_body_ok)
  from "3.IH"[OF vp ok] show ?case
    by (simp add: events_loop_Continue[OF b h])
qed

text \<open>
  Claim C1. For a sequence of successful pages in which every page but the last announces
  more pages and carries the token, and the last does not announce more, the
  flow-metrics program ends its write loop having written exactly the items of all pages
  that are not named other, in page order and in each page's order. The events program
  writes every item of every page in that order, those named other too.
\<close>

theorem written_items:
  assumes "valid_pages script"
  shows "ended (flow_main E e s t l script) \<and>
         elements (output_file (flow_main E e s t l script)) =
           kept (concat (map page_items script)) \<and>
         ended (events_main e' s' t' v l' script) \<and>
         elements (output_file (events_main e' s' t' v l' script)) =
           concat (map page_items script)"
proof -
  have ok: "body_ok True None" by (simp add: body_ok_def)
  have f: "queue (flow_fetch_data_worker E e s t l script) =
     map Some (filter (\<lambda>b. \<not> only_other b) (map page_items script)) @ None # []"
    unfolding flow_fetch_data_worker_def using flow_valid_pages_queue[OF assms ok] by simp
  have g: "queue (events_fetch_data_worker e' s' t' v l' script) =
     map Some (map page_items script) @ None # []"
    unfolding events_fetch_data_worker_def using events_valid_pages_queue[OF assms ok] by simp
  have "ended (flow_main E e s t l script) \<and>
         elements (output_file (flow_main E e s t l script)) =
           kept (concat (map page_items script))"
    unfolding flow_main_def flow_main_write_def f
    using flow_write_loop_result[of True "[Raw ''[\<newline>'']"
            "filter (\<lambda>b. \<not> only_other b) (map page_items script)" "[]" "\<lambda>item indent. []"]
    by (simp add: kept_concat_filter)
  moreover have "ended (events_main e' s' t' v l' script) \<and>
         elements (output_file (events_main e' s' t' v l' script)) =
           concat (map page_items script)"
    unfolding events_main_def events_main_write_def g
    using events_write_loop_result[of True "[Raw ''[\<newline>'']" "map page_items script" "[]" "\<lambda>item indent. []"]
    by simp
  ultimately show ?thesis by blast
qed

theorem written_items_witness:
  "elements (output_file (flow_main 1 2 ''a'' ''b'' 3
     [Response 200 (Some (Body (Some [[(''name'', JStr ''other'')]])
        (Some (Meta (Some (JBool True)) (Some (JStr ''T0'')))))),
      Response 200 (Some (Body (Some [[(''id'', JNum 1)], [(''name'', JStr ''other'')], [(''id'', JNum 2)]])
        (Some (Meta (Some (JBool True)) (Some (JStr ''T1'')))))),
      Response 200 (Some (Body (Some [[(''id'', JNum 3)]])
        (Some (Meta (Some (JBool False)) None))))])) =
     [[(''id'', JNum 1)], [(''id'', JNum 2)], [(''id'', JNum 3)]] \<and>
   elements (output_file (events_main 2 0 1 ''past12Months'' 3
     [Response 200 (Some (Body (Some [[(''name'', JStr ''other'')]])
        (Some (Meta (Some (JBool True)) (Some (JStr ''T0'')))))),
      Response 200 (Some (Body (Some [[(''id'', JNum 1)], [(''name'', JStr ''other'')], [(''id'', JNum 2)]])
        (Some (Meta (Some (JBool True)) (Some (JStr ''T1'')))))),
      Response 200 (Some (Body (Some [[(''id'', JNum 3)]])
        (Some (Meta (Some (JBool False)) None))))])) =
     [[(''name'', JStr ''other'')], [(''id'', JNum 1)], [(''name'', JStr ''other'')],
      [(''id'', JNum 2)], [(''id'', JNum 3)]]"
proof -
  let ?S = "[Response 200 (Some (Body (Some [[(''name'', JStr ''other'')]])
        (Some (Meta (Some (JBool True)) (Some (JStr ''T0'')))))),
      Response 200 (Some (Body (Some [[(''id'', JNum 1)], [(''name'', JStr ''other'')], [(''id'', JNum 2)]])
        (Some (Meta (Some (JBool True)) (Some (JStr ''T1'')))))),
      Response 200 (Some (Body (Some [[(''id'', JNum 3)]])
        (Some (Meta (Some (JBool False)) None))))]"
  have v: "valid_pages ?S"
    by (simp add: page_body_def terminal_def token_ok_def no_more_def has_token_def)
  have k: "kept (concat (map page_items ?S)) = [[(''id'', JNum 1)], [(''id'', JNum 2)], [(''id'', JNum 3)]]"
    by (simp add: kept_def page_items_def page_body_def is_other_def dict_get_def)
  have c: "concat (map page_items ?S) =
     [[(''name'', JStr ''other'')], [(''id'', JNum 1)], [(''name'', JStr ''other'')],
      [(''id'', JNum 2)], [(''id'', JNum 3)]]"
    by (simp add: page_items_def page_body_def)
  from written_items[OF v, of 1 2 "''a''" "''b''" 3 2 0 1 "''past12Months''" 3] k c
  show ?thesis by simp
qed

theorem written_items_counterexample:
  "elements (output_file (events_main 2 0 1 ''past12Months'' 3
     [Response 200 (Some (Body (Some [[(''id'', JNum 1)], [(''name'', JStr ''other'')]])
        (Some (Meta (Some (JBool False)) None))))])) =
     [[(''id'', JNum 1)], [(''name'', JStr ''other'')]] \<and>
   is_other [(''name'', JStr ''other'')]"
  by (simp add: eval_defs)

end
